theory Spec2Isabelle
  imports Main "HOL-Library.Word" "HOL-Library.Multiset" "HOL-Library.List_Lexorder"
    "HOL-Library.Code_Target_Numeral"
begin

section \<open>JavaScript strings and numbers\<close>

text \<open>
  A JavaScript string is a sequence of 16-bit code units. \<open>js\<close> writes an ASCII
  literal as such a sequence.
\<close>

type_synonym jschar = "16 word"
type_synonym jsstring = "jschar list"

definition js :: "string \<Rightarrow> jsstring" where
  "js s = map of_char s"

definition slash :: jschar where "slash = 0x2F"

text \<open>The CJK code units of the labelled patterns: U+7B2C, U+8282, U+7AE0, U+8BFE.\<close>

definition chDi :: jschar where "chDi = 0x7B2C"
definition chJie :: jschar where "chJie = 0x8282"
definition chZhang :: jschar where "chZhang = 0x7AE0"
definition chKe :: jschar where "chKe = 0x8BFE"

text \<open>The regular expression class \<open>\d\<close> (no unicode flag): the ASCII digits.\<close>

definition isDigit :: "jschar \<Rightarrow> bool" where
  "isDigit c = (0x30 \<le> c \<and> c \<le> 0x39)"

text \<open>
  A Number that \<open>parseInt\<close> returns on a run of digits: a non-negative integer-valued
  double, or \<open>Infinity\<close>.
\<close>

datatype jsnum = Finite nat | Infinity

fun bitlen :: "nat \<Rightarrow> nat" where
  "bitlen n = (if n = 0 then 0 else Suc (bitlen (n div 2)))"

declare bitlen.simps [simp del]

text \<open>
  The Number value of a mathematical integer: exact below \<open>2^53\<close>, otherwise rounded to
  53 significant bits, ties to even, and \<open>Infinity\<close> from \<open>2^1024\<close> on.
\<close>

definition toNumber :: "nat \<Rightarrow> jsnum" where
  "toNumber v =
     (if v < 2 ^ 53 then Finite v
      else let e = bitlen v - 53;
               q = v div 2 ^ e;
               r = v mod 2 ^ e;
               h = 2 ^ (e - 1);
               q' = (if h < r \<or> (r = h \<and> odd q) then q + 1 else q)
           in if 2 ^ 1024 \<le> q' * 2 ^ e then Infinity else Finite (q' * 2 ^ e))"

text \<open>
  \<open>parseInt(match[1], 10)\<close>: the argument is a capture of \<open>(\d+)\<close>, a non-empty run of
  ASCII digits, read in base ten.
\<close>

definition digitValue :: "jschar \<Rightarrow> nat" where
  "digitValue c = unat c - 48"

definition decimalValue :: "jsstring \<Rightarrow> nat" where
  "decimalValue ds = foldl (\<lambda>a c. 10 * a + digitValue c) 0 ds"

definition parseInt10 :: "jsstring \<Rightarrow> jsnum" where
  "parseInt10 ds = toNumber (decimalValue ds)"

section \<open>extractNumberFromFileName\<close>

text \<open>
  \<open>fileName.match\<close> on a labelled pattern, the code unit U+7B2C, then \<open>(\d+)\<close>, then
  the unit character \<open>u\<close>: the leftmost position where U+7B2C is followed by a
  non-empty digit run and then by \<open>u\<close>. The run is
  greedy, and giving digits back cannot help, because the next code unit would be a
  digit and \<open>u\<close> is none. The result is capture group 1, or \<open>None\<close> for \<open>null\<close>.
\<close>

definition matchLabelledAt :: "jschar \<Rightarrow> jsstring \<Rightarrow> jsstring option" where
  "matchLabelledAt u s =
     (case s of
        [] \<Rightarrow> None
      | c # r \<Rightarrow>
          if c = chDi \<and> takeWhile isDigit r \<noteq> []
             \<and> (case dropWhile isDigit r of [] \<Rightarrow> False | d # _ \<Rightarrow> d = u)
          then Some (takeWhile isDigit r) else None)"

fun matchLabelled :: "jschar \<Rightarrow> jsstring \<Rightarrow> jsstring option" where
  "matchLabelled u [] = None"
| "matchLabelled u (c # r) =
     (case matchLabelledAt u (c # r) of
        Some ds \<Rightarrow> Some ds
      | None \<Rightarrow> matchLabelled u r)"

text \<open>\<open>/^(\d+)/\<close>: a digit run at the start of the string.\<close>

definition matchLeading :: "jsstring \<Rightarrow> jsstring option" where
  "matchLeading s = (if takeWhile isDigit s = [] then None else Some (takeWhile isDigit s))"

text \<open>\<open>/(\d+)/\<close>: the first digit run anywhere in the string.\<close>

definition matchAny :: "jsstring \<Rightarrow> jsstring option" where
  "matchAny s = matchLeading (dropWhile (\<lambda>c. \<not> isDigit c) s)"

text \<open>The five patterns in the order of the source's array.\<close>

definition patterns :: "(jsstring \<Rightarrow> jsstring option) list" where
  "patterns = [matchLabelled chJie, matchLabelled chZhang, matchLabelled chKe,
               matchLeading, matchAny]"

text \<open>The \<open>for\<close> loop over the patterns: the first match returns.\<close>

fun firstMatch :: "(jsstring \<Rightarrow> jsstring option) list \<Rightarrow> jsstring \<Rightarrow> jsnum" where
  "firstMatch [] fileName = Infinity"
| "firstMatch (p # ps) fileName =
     (case p fileName of
        Some ds \<Rightarrow> parseInt10 ds
      | None \<Rightarrow> firstMatch ps fileName)"

definition extractNumberFromFileName :: "jsstring \<Rightarrow> jsnum" where
  "extractNumberFromFileName fileName = firstMatch patterns fileName"

section \<open>sortFilesByNumber\<close>

text \<open>
  What the host supplies: \<open>String.prototype.localeCompare\<close> and
  \<open>String.prototype.toLowerCase\<close>.
\<close>

record host =
  localeCompare :: "jsstring \<Rightarrow> jsstring \<Rightarrow> int"
  toLowerCase :: "jsstring \<Rightarrow> jsstring"

text \<open>
  The comparison function passed to \<open>sort\<close>. Only the sign of its result is read by
  \<open>sort\<close>; the difference of two finite keys has the sign of the exact difference.
\<close>

definition compareNames :: "host \<Rightarrow> jsstring \<Rightarrow> jsstring \<Rightarrow> int" where
  "compareNames H a b =
     (case (extractNumberFromFileName a, extractNumberFromFileName b) of
        (Finite numA, Finite numB) \<Rightarrow> int numA - int numB
      | (Finite numA, Infinity) \<Rightarrow> - 1
      | (Infinity, Finite numB) \<Rightarrow> 1
      | (Infinity, Infinity) \<Rightarrow> localeCompare H a b)"

text \<open>
  \<open>Array.prototype.sort\<close> with a comparison function, as ECMAScript specifies it for a
  consistent comparator: the stable sorted permutation. \<open>[...files]\<close> copies the array
  first, so the argument is left as it was.
\<close>

fun insertSorted :: "('a \<Rightarrow> 'a \<Rightarrow> int) \<Rightarrow> 'a \<Rightarrow> 'a list \<Rightarrow> 'a list" where
  "insertSorted cmp x [] = [x]"
| "insertSorted cmp x (y # ys) =
     (if cmp x y \<le> 0 then x # y # ys else y # insertSorted cmp x ys)"

definition arraySort :: "('a \<Rightarrow> 'a \<Rightarrow> int) \<Rightarrow> 'a list \<Rightarrow> 'a list" where
  "arraySort cmp xs = foldr (insertSorted cmp) xs []"

text \<open>\<open>sortFilesByNumber\<close> is generic in the item type; \<open>nm\<close> reads the item's name.\<close>

definition sortFilesByNumber :: "host \<Rightarrow> ('a \<Rightarrow> jsstring) \<Rightarrow> 'a list \<Rightarrow> 'a list" where
  "sortFilesByNumber H nm files = arraySort (\<lambda>a b. compareNames H (nm a) (nm b)) files"

text \<open>The sorted array has the elements of the argument, whatever the comparator.\<close>

lemma arraySort_Nil [simp]: "arraySort cmp [] = []"
  by (simp add: arraySort_def)

lemma arraySort_Cons: "arraySort cmp (x # xs) = insertSorted cmp x (arraySort cmp xs)"
  by (simp add: arraySort_def)

lemma mset_insertSorted [simp]: "mset (insertSorted cmp x ys) = add_mset x (mset ys)"
  by (induction ys) auto

lemma mset_arraySort [simp]: "mset (arraySort cmp xs) = mset xs"
  by (induction xs) (auto simp: arraySort_Cons)

lemma set_arraySort [simp]: "set (arraySort cmp xs) = set xs"
  using mset_arraySort[of cmp xs] by (metis set_mset_mset)

lemma length_arraySort [simp]: "length (arraySort cmp xs) = length xs"
  using mset_arraySort[of cmp xs] by (metis size_mset)

lemma set_sortFilesByNumber [simp]: "set (sortFilesByNumber H nm files) = set files"
  by (simp add: sortFilesByNumber_def)

text \<open>
  ECMAScript's notion of a consistent comparator: equality under the comparator is
  reflexive and symmetric, less and greater mirror each other, and all three are
  transitive.
\<close>

definition consistentComparator :: "('a \<Rightarrow> 'a \<Rightarrow> int) \<Rightarrow> bool" where
  "consistentComparator cmp =
     ((\<forall>a. cmp a a = 0)
      \<and> (\<forall>a b. (cmp a b = 0) = (cmp b a = 0))
      \<and> (\<forall>a b. (cmp a b < 0) = (0 < cmp b a))
      \<and> (\<forall>a b c. cmp a b = 0 \<and> cmp b c = 0 \<longrightarrow> cmp a c = 0)
      \<and> (\<forall>a b c. cmp a b < 0 \<and> cmp b c < 0 \<longrightarrow> cmp a c < 0))"

text \<open>A host for evaluation: code-unit order and ASCII lower-casing.\<close>

definition asciiLower :: "jschar \<Rightarrow> jschar" where
  "asciiLower c = (if 0x41 \<le> c \<and> c \<le> 0x5A then c + 0x20 else c)"

definition codeUnitCompare :: "jsstring \<Rightarrow> jsstring \<Rightarrow> int" where
  "codeUnitCompare a b = (if a = b then 0 else if a < b then - 1 else 1)"

definition plainHost :: host where
  "plainHost = \<lparr> localeCompare = codeUnitCompare, toLowerCase = map asciiLower \<rparr>"

section \<open>The data model\<close>

text \<open>
  A browser \<open>File\<close> of the selected folder, with the fields the program reads. The
  object itself is the content handle that a \<open>VideoFile\<close> keeps in its \<open>file\<close> field.
\<close>

record File =
  fileName :: jsstring
  webkitRelativePath :: jsstring
  fileSize :: nat
  fileType :: jsstring

text \<open>
  \<open>VideoFile\<close>: \<open>file\<close>, \<open>name\<close>, \<open>path\<close>, \<open>size\<close>. The \<open>file\<close> field is absent in
  an entry that comes back from the cache. The optional \<open>duration\<close> and \<open>thumbnail\<close> are
  never written or read by the functions below.
\<close>

record VideoFile =
  videoFile :: "File option"
  videoName :: jsstring
  videoPath :: jsstring
  videoSize :: nat

text \<open>An entry of \<open>allFiles\<close>: the \<open>VideoFile\<close> fields and the tag \<open>isVideo\<close>.\<close>

record FileItem =
  itemFile :: "File option"
  itemName :: jsstring
  itemPath :: jsstring
  itemSize :: nat
  isVideo :: bool

text \<open>
  \<open>FolderNode\<close> as a value: \<open>allFiles\<close> and \<open>isExpanded\<close> are optional in the
  interface.
\<close>

datatype FolderNode =
  FolderNode (name: jsstring) (path: jsstring) (children: "FolderNode list")
    (videos: "VideoFile list") (allFiles: "FileItem list option") (isExpanded: "bool option")

section \<open>Searching\<close>

text \<open>\<open>String.prototype.includes\<close>: the argument occurs as a contiguous substring.\<close>

fun startsWith :: "jsstring \<Rightarrow> jsstring \<Rightarrow> bool" where
  "startsWith s [] = True"
| "startsWith [] (c # sub) = False"
| "startsWith (d # s) (c # sub) = (d = c \<and> startsWith s sub)"

fun stringIncludes :: "jsstring \<Rightarrow> jsstring \<Rightarrow> bool" where
  "stringIncludes [] sub = startsWith [] sub"
| "stringIncludes (d # s) sub = (startsWith (d # s) sub \<or> stringIncludes s sub)"

text \<open>
  \<open>String.prototype.trim\<close> removes ECMAScript white space and line terminators from
  both ends.
\<close>

definition isWhiteSpace :: "jschar \<Rightarrow> bool" where
  "isWhiteSpace c =
     (c \<in> {0x09, 0x0A, 0x0B, 0x0C, 0x0D, 0x20, 0xA0, 0x1680, 0x2028, 0x2029, 0x202F,
            0x205F, 0x3000, 0xFEFF}
      \<or> (0x2000 \<le> c \<and> c \<le> 0x200A))"

definition trim :: "jsstring \<Rightarrow> jsstring" where
  "trim s = rev (dropWhile isWhiteSpace (rev (dropWhile isWhiteSpace s)))"

text \<open>\<open>getAllVideosFromFolder\<close>: the folder's videos, then those of each child in turn.\<close>

fun getAllVideosFromFolder :: "FolderNode \<Rightarrow> VideoFile list" where
  "getAllVideosFromFolder (FolderNode n p cs vs fs e) =
     foldl (\<lambda>allVideos child. allVideos @ getAllVideosFromFolder child) vs cs"

text \<open>
  \<open>searchVideos\<close>: the array \<open>results\<close> is threaded through the walk; every matching
  video of a folder is pushed, then the children are visited.
\<close>

fun searchInFolder :: "host \<Rightarrow> jsstring \<Rightarrow> FolderNode \<Rightarrow> VideoFile list \<Rightarrow> VideoFile list" where
  "searchInFolder H lowerSearchTerm (FolderNode n p cs vs fs e) results =
     foldl (\<lambda>res child. searchInFolder H lowerSearchTerm child res)
       (foldl (\<lambda>res video.
                 if stringIncludes (toLowerCase H (videoName video)) lowerSearchTerm
                 then res @ [video] else res)
          results vs)
       cs"

definition searchVideos :: "host \<Rightarrow> FolderNode list \<Rightarrow> jsstring \<Rightarrow> VideoFile list" where
  "searchVideos H folders searchTerm =
     foldl (\<lambda>res folder. searchInFolder H (toLowerCase H searchTerm) folder res) [] folders"

text \<open>
  The state of the \<open>FileExplorer\<close> component that the handlers below read and write.
  \<open>treeData\<close>, the rendering of \<open>folders\<close>, and \<open>isLoading\<close> are left out.
\<close>

record explorerState =
  folders :: "FolderNode list"
  searchTerm :: jsstring
  searchResults :: "VideoFile list"
  lastFolderPath :: jsstring

definition initialState :: explorerState where
  "initialState = \<lparr> folders = [], searchTerm = [], searchResults = [], lastFolderPath = [] \<rparr>"

text \<open>\<open>handleSearch\<close>, the handler of the search box.\<close>

definition handleSearch :: "host \<Rightarrow> explorerState \<Rightarrow> jsstring \<Rightarrow> explorerState" where
  "handleSearch H st v =
     (let st1 = st\<lparr>searchTerm := v\<rparr> in
      if trim v = [] then st1\<lparr>searchResults := []\<rparr>
      else let results = searchVideos H (folders st1) v;
               sortedResults = sortFilesByNumber H videoName results
           in st1\<lparr>searchResults := sortedResults\<rparr>)"

section \<open>The snapshot of the folder tree\<close>

text \<open>
  The records that \<open>simplifyFolderTree\<close> writes. After \<open>JSON.parse\<close> every field but the
  strings and numbers may be missing, which is what the \<open>||\<close> defaults of
  \<open>restoreFolderTree\<close> are for.
\<close>

record SimpleVideo =
  svName :: jsstring
  svPath :: jsstring
  svSize :: nat

record SimpleFile =
  sfName :: jsstring
  sfPath :: jsstring
  sfSize :: nat
  sfIsVideo :: bool

datatype SimpleFolder =
  SimpleFolder (sName: jsstring) (sPath: jsstring) (sChildren: "SimpleFolder list option")
    (sVideos: "SimpleVideo list option") (sAllFiles: "SimpleFile list option")
    (sIsExpanded: "bool option")

definition simplifyVideo :: "VideoFile \<Rightarrow> SimpleVideo" where
  "simplifyVideo video =
     \<lparr> svName = videoName video, svPath = videoPath video, svSize = videoSize video \<rparr>"

definition simplifyFile :: "FileItem \<Rightarrow> SimpleFile" where
  "simplifyFile f =
     \<lparr> sfName = itemName f, sfPath = itemPath f, sfSize = itemSize f, sfIsVideo = isVideo f \<rparr>"

fun simplifyFolder :: "FolderNode \<Rightarrow> SimpleFolder" where
  "simplifyFolder (FolderNode n p cs vs fs e) =
     SimpleFolder n p (Some (map simplifyFolder cs)) (Some (map simplifyVideo vs))
       (Some (case fs of None \<Rightarrow> [] | Some files \<Rightarrow> map simplifyFile files)) e"

definition simplifyFolderTree :: "FolderNode list \<Rightarrow> SimpleFolder list" where
  "simplifyFolderTree fs = map simplifyFolder fs"

text \<open>
  \<open>restoreFolderTree\<close> keeps the cached entries as they are: they have no \<open>file\<close>.
\<close>

definition restoreVideo :: "SimpleVideo \<Rightarrow> VideoFile" where
  "restoreVideo v =
     \<lparr> videoFile = None, videoName = svName v, videoPath = svPath v, videoSize = svSize v \<rparr>"

definition restoreFile :: "SimpleFile \<Rightarrow> FileItem" where
  "restoreFile f =
     \<lparr> itemFile = None, itemName = sfName f, itemPath = sfPath f, itemSize = sfSize f,
       isVideo = sfIsVideo f \<rparr>"

fun restoreFolder :: "SimpleFolder \<Rightarrow> FolderNode" where
  "restoreFolder (SimpleFolder n p cs vs fs e) =
     FolderNode n p
       (map restoreFolder (case cs of None \<Rightarrow> [] | Some l \<Rightarrow> l))
       (map restoreVideo (case vs of None \<Rightarrow> [] | Some l \<Rightarrow> l))
       (Some (map restoreFile (case fs of None \<Rightarrow> [] | Some l \<Rightarrow> l)))
       (Some (case e of None \<Rightarrow> False | Some b \<Rightarrow> b))"

definition restoreFolderTree :: "SimpleFolder list \<Rightarrow> FolderNode list" where
  "restoreFolderTree simplifiedTree = map restoreFolder simplifiedTree"

text \<open>The snapshot without its \<open>isExpanded\<close> flags.\<close>

fun withoutExpanded :: "SimpleFolder \<Rightarrow> SimpleFolder" where
  "withoutExpanded (SimpleFolder n p cs vs fs e) =
     SimpleFolder n p (map_option (map withoutExpanded) cs) vs fs None"

fun expandedDefined :: "FolderNode \<Rightarrow> bool" where
  "expandedDefined (FolderNode n p cs vs fs e) = (e \<noteq> None \<and> list_all expandedDefined cs)"

section \<open>Loading the cached folder\<close>

text \<open>
  The two \<open>localStorage\<close> entries, \<open>video-player-last-folder\<close> and
  \<open>video-player-folder-content\<close>; \<open>None\<close> is the \<open>null\<close> of \<open>getItem\<close>.
\<close>

record storage =
  folderCache :: "jsstring option"
  folderContentCache :: "jsstring option"

text \<open>What \<open>saveFolderToCache\<close> writes under the two keys.\<close>

record cacheInfo =
  infoFolderName :: jsstring
  infoTimestamp :: int
  fileCount :: nat

record cacheContent =
  folderTree :: "SimpleFolder list option"
  contentTimestamp :: "int option"

text \<open>
  \<open>JSON.parse\<close> followed by the destructuring of its result, for each of the two
  entries (\<open>None\<close> when it throws), and \<open>Date.now()\<close>. A parsed content entry may lack
  either field.
\<close>

record jsonHost =
  parseInfo :: "jsstring \<Rightarrow> cacheInfo option"
  parseContent :: "jsstring \<Rightarrow> cacheContent option"
  dateNow :: int

datatype jsError = SyntaxError

datatype loadResult = Null | Loaded jsstring int nat bool

text \<open>
  The body of the \<open>try\<close> block of \<open>loadFolderFromCache\<close>. It returns the component
  state as the setters have left it, and either the thrown error or the returned value;
  falling out of the \<open>if\<close> reaches the \<open>return null\<close> after the block.
\<close>

definition loadBody ::
  "jsonHost \<Rightarrow> storage \<Rightarrow> explorerState \<Rightarrow> explorerState \<times> (jsError + loadResult)" where
  "loadBody J store st =
     (case folderCache store of
        None \<Rightarrow> (st, Inr Null)
      | Some cached \<Rightarrow>
          if cached = [] then (st, Inr Null)
          else (case parseInfo J cached of
             None \<Rightarrow> (st, Inl SyntaxError)
           | Some info \<Rightarrow>
               let st1 = st\<lparr>lastFolderPath := infoFolderName info\<rparr>;
                   notRestored =
                     (st1, Inr (Loaded (infoFolderName info) (infoTimestamp info) (fileCount info) False))
               in (case folderContentCache store of
                     None \<Rightarrow> notRestored
                   | Some contentCached \<Rightarrow>
                       if contentCached = [] then notRestored
                       else (case parseContent J contentCached of
                          None \<Rightarrow> (st1, Inl SyntaxError)
                        | Some content \<Rightarrow>
                            let isExpired =
                                  (case contentTimestamp content of
                                     None \<Rightarrow> False
                                   | Some t \<Rightarrow> 7 * 24 * 60 * 60 * 1000 < dateNow J - t)
                            in (case folderTree content of
                                  None \<Rightarrow> notRestored
                                | Some tree \<Rightarrow>
                                    if isExpired then notRestored
                                    else
                                      (st1\<lparr>folders := restoreFolderTree tree\<rparr>,
                                       Inr (Loaded (infoFolderName info) (infoTimestamp info)
                                              (fileCount info) True)))))))"

text \<open>The \<open>catch\<close> logs a warning and the function returns \<open>null\<close>.\<close>

definition loadFolderFromCache ::
  "jsonHost \<Rightarrow> storage \<Rightarrow> explorerState \<Rightarrow> explorerState \<times> loadResult" where
  "loadFolderFromCache J store st =
     (case loadBody J store st of
        (st', Inl err) \<Rightarrow> (st', Null)
      | (st', Inr r) \<Rightarrow> (st', r))"

text \<open>The effect that runs once when the component is mounted.\<close>

definition mountExplorer :: "jsonHost \<Rightarrow> storage \<Rightarrow> explorerState" where
  "mountExplorer J store = fst (loadFolderFromCache J store initialState)"

section \<open>buildCompleteFolderTree\<close>

definition SUPPORTED_VIDEO_FORMATS :: "jsstring list" where
  "SUPPORTED_VIDEO_FORMATS =
     map js [''video/mp4'', ''video/webm'', ''video/ogg'', ''video/avi'', ''video/mov'',
             ''video/wmv'', ''video/flv'', ''video/mkv'']"

definition videoExtensions :: "jsstring list" where
  "videoExtensions =
     map js [''.mp4'', ''.webm'', ''.ogg'', ''.avi'', ''.mov'',
             ''.wmv'', ''.flv'', ''.mkv'', ''.m4v'', ''.3gp'']"

text \<open>\<open>lastIndexOf\<close> gives \<open>-1\<close> when the character does not occur.\<close>

definition lastIndexOf :: "jschar \<Rightarrow> jsstring \<Rightarrow> int" where
  "lastIndexOf c s =
     (if c \<in> set s then int (length s) - 1 - int (length (takeWhile (\<lambda>d. d \<noteq> c) (rev s)))
      else - 1)"

text \<open>\<open>substring(start)\<close>: a negative start counts as zero.\<close>

definition substring :: "jsstring \<Rightarrow> int \<Rightarrow> jsstring" where
  "substring s start = drop (nat start) s"

definition isVideoByExtension :: "host \<Rightarrow> jsstring \<Rightarrow> bool" where
  "isVideoByExtension H fName =
     (substring (toLowerCase H fName) (lastIndexOf 0x2E fName) \<in> set videoExtensions)"

definition isVideoFile :: "host \<Rightarrow> File \<Rightarrow> bool" where
  "isVideoFile H f =
     (fileType f \<in> set SUPPORTED_VIDEO_FORMATS \<or> isVideoByExtension H (fileName f))"

text \<open>The first loop: every file becomes an item of the array \<open>allFiles\<close>.\<close>

definition toFileItem :: "host \<Rightarrow> File \<Rightarrow> FileItem" where
  "toFileItem H f =
     \<lparr> itemFile = Some f, itemName = fileName f,
       itemPath = (if webkitRelativePath f \<noteq> [] then webkitRelativePath f else fileName f),
       itemSize = fileSize f, isVideo = isVideoFile H f \<rparr>"

text \<open>\<open>String.prototype.split\<close> on a separator character.\<close>

fun splitOn :: "jschar \<Rightarrow> jsstring \<Rightarrow> jsstring list" where
  "splitOn sep [] = [[]]"
| "splitOn sep (c # s) =
     (if c = sep then [] # splitOn sep s
      else (c # hd (splitOn sep s)) # tl (splitOn sep s))"

text \<open>
  While the tree is built a \<open>FolderNode\<close> is a mutable object: the same object is held
  by \<open>folderMap\<close>, by its parent's \<open>children\<close> array or by \<open>rootFolders\<close>, and pushed
  to later. So the objects live in a heap, addressed by their allocation index, and the
  arrays hold addresses.
\<close>

record FolderObj =
  objName :: jsstring
  objPath :: jsstring
  objChildren :: "nat list"
  objVideos :: "VideoFile list"
  objAllFiles :: "FileItem list"
  objIsExpanded :: bool

record buildState =
  heap :: "FolderObj list"
  folderMap :: "jsstring \<rightharpoonup> nat"
  rootFolders :: "nat list"

definition emptyBuild :: buildState where
  "emptyBuild = \<lparr> heap = [], folderMap = Map.empty, rootFolders = [] \<rparr>"

text \<open>The name of the root folder, U+6839 U+76EE U+5F55.\<close>

definition rootName :: jsstring where
  "rootName = [0x6839, 0x76EE, 0x5F55]"

definition getRootFolder :: "buildState \<Rightarrow> nat \<times> buildState" where
  "getRootFolder s =
     (case folderMap s [] of
        Some a \<Rightarrow> (a, s)
      | None \<Rightarrow>
          let a = length (heap s);
              rootFolder = \<lparr> objName = rootName, objPath = [], objChildren = [],
                             objVideos = [], objAllFiles = [], objIsExpanded = True \<rparr>
          in (a, s\<lparr> heap := heap s @ [rootFolder],
                    folderMap := (folderMap s)([] \<mapsto> a),
                    rootFolders := rootFolders s @ [a] \<rparr>))"

definition toVideoFile :: "FileItem \<Rightarrow> VideoFile" where
  "toVideoFile fileItem =
     \<lparr> videoFile = itemFile fileItem, videoName = itemName fileItem,
       videoPath = itemPath fileItem, videoSize = itemSize fileItem \<rparr>"

text \<open>Pushing the item to \<open>allFiles\<close>, and to \<open>videos\<close> when it is a video.\<close>

definition pushFile :: "FileItem \<Rightarrow> FolderObj \<Rightarrow> FolderObj" where
  "pushFile fileItem folder =
     folder\<lparr> objAllFiles := objAllFiles folder @ [fileItem],
             objVideos := (if isVideo fileItem then objVideos folder @ [toVideoFile fileItem]
                           else objVideos folder) \<rparr>"

definition addFile :: "nat \<Rightarrow> FileItem \<Rightarrow> buildState \<Rightarrow> buildState" where
  "addFile a fileItem s = s\<lparr> heap := (heap s)[a := pushFile fileItem (heap s ! a)] \<rparr>"

definition pushChild :: "nat \<Rightarrow> nat \<Rightarrow> buildState \<Rightarrow> buildState" where
  "pushChild parent a s =
     s\<lparr> heap := (heap s)[parent :=
           (heap s ! parent)\<lparr> objChildren := objChildren (heap s ! parent) @ [a] \<rparr>] \<rparr>"

text \<open>
  One round of the inner \<open>forEach\<close> over \<open>pathParts\<close>. The loop variables are
  \<open>currentPath\<close> and \<open>currentParent\<close> (\<open>None\<close> for \<open>null\<close>).
\<close>

definition nextPath :: "jsstring \<Rightarrow> jsstring \<Rightarrow> jsstring" where
  "nextPath currentPath folderName =
     (if currentPath \<noteq> [] then currentPath @ [slash] @ folderName else folderName)"

definition walkStep ::
  "jsstring \<times> nat option \<times> buildState \<Rightarrow> jsstring \<Rightarrow> jsstring \<times> nat option \<times> buildState" where
  "walkStep st folderName =
     (case st of (parentPath, currentParent, s) \<Rightarrow>
        let currentPath = nextPath parentPath folderName;
            s' =
              (case folderMap s currentPath of
                 Some _ \<Rightarrow> s
               | None \<Rightarrow>
                   let a = length (heap s);
                       newFolder = \<lparr> objName = folderName, objPath = currentPath,
                                     objChildren = [], objVideos = [], objAllFiles = [],
                                     objIsExpanded = False \<rparr>;
                       s1 = s\<lparr> heap := heap s @ [newFolder],
                               folderMap := (folderMap s)(currentPath \<mapsto> a) \<rparr>
                   in (case currentParent of
                         Some parent \<Rightarrow> pushChild parent a s1
                       | None \<Rightarrow>
                           if parentPath = [] then s1\<lparr> rootFolders := rootFolders s1 @ [a] \<rparr>
                           else (case folderMap s1 parentPath of
                                   Some parentFolder \<Rightarrow> pushChild parentFolder a s1
                                 | None \<Rightarrow> s1)))
        in (currentPath, folderMap s' currentPath, s'))"

text \<open>The body of the loop over \<open>allFiles\<close>.\<close>

definition placeFile :: "buildState \<Rightarrow> FileItem \<Rightarrow> buildState" where
  "placeFile s fileItem =
     (let pathParts = butlast (splitOn slash (itemPath fileItem)) in
      if pathParts = [] then
        (case getRootFolder s of (rootFolder, s1) \<Rightarrow> addFile rootFolder fileItem s1)
      else
        (case foldl walkStep ([], None, s) pathParts of
           (currentPath, currentParent, s1) \<Rightarrow>
             (case currentParent of
                Some folder \<Rightarrow> addFile folder fileItem s1
              | None \<Rightarrow> s1)))"

definition buildHeap :: "host \<Rightarrow> File list \<Rightarrow> buildState" where
  "buildHeap H files = foldl placeFile emptyBuild (map (toFileItem H) files)"

text \<open>
  Reading the object at an address as a value, its children first. The recursion follows
  the \<open>children\<close> arrays of the heap, so it is bounded by a number of levels; \<open>None\<close>
  means that the bound was reached or an address is not allocated.
\<close>

fun readNode :: "nat \<Rightarrow> FolderObj list \<Rightarrow> nat \<Rightarrow> FolderNode option" where
  "readNode 0 h a = None"
| "readNode (Suc n) h a =
     (if a < length h then
        (case those (map (readNode n h) (objChildren (h ! a))) of
           None \<Rightarrow> None
         | Some cs \<Rightarrow>
             Some (FolderNode (objName (h ! a)) (objPath (h ! a)) cs (objVideos (h ! a))
                     (Some (objAllFiles (h ! a))) (Some (objIsExpanded (h ! a)))))
      else None)"

text \<open>
  \<open>sortFolderContents\<close>: the folder's files, its videos and its children are sorted,
  then each child in the sorted order. Sorting the empty array gives the empty array,
  which is what the guards on \<open>length\<close> leave in place.
\<close>

function sortFolderContents :: "host \<Rightarrow> FolderNode \<Rightarrow> FolderNode" where
  "sortFolderContents H (FolderNode n p cs vs fs e) =
     FolderNode n p
       (map (sortFolderContents H) (sortFilesByNumber H name cs))
       (sortFilesByNumber H videoName vs)
       (map_option (sortFilesByNumber H itemName) fs)
       e"
  by pat_completeness auto
termination
proof (relation "measure (\<lambda>(H, folder). size folder)")
  show "wf (measure (\<lambda>(H, folder). size folder))" by simp
next
  fix H :: host and n p cs vs fs e x
  assume "x \<in> set (sortFilesByNumber H name cs)"
  then have "x \<in> set cs" by simp
  then have "size x \<le> size_list size cs" by (simp add: size_list_estimation')
  then show "((H, x), (H, FolderNode n p cs vs fs e)) \<in> measure (\<lambda>(H, folder). size folder)"
    by simp
qed

text \<open>
  The whole function: the heap is built, every root folder is sorted through, and the
  array of roots is sorted. The objects are read as values with as many levels as the
  heap has objects.
\<close>

definition buildCompleteFolderTree :: "host \<Rightarrow> File list \<Rightarrow> FolderNode list option" where
  "buildCompleteFolderTree H files =
     (let s = buildHeap H files in
      case those (map (readNode (length (heap s)) (heap s)) (rootFolders s)) of
        None \<Rightarrow> None
      | Some roots \<Rightarrow> Some (sortFilesByNumber H name (map (sortFolderContents H) roots)))"

section \<open>Properties of the build state\<close>

text \<open>
  \<open>pathParts\<close> is the array of folder names of an item after \<open>pop\<close>, and
  \<open>folderPathOf\<close> the value of \<open>currentPath\<close> after the loop over it.
\<close>

definition pathParts :: "FileItem \<Rightarrow> jsstring list" where
  "pathParts fileItem = butlast (splitOn slash (itemPath fileItem))"

definition folderPathOf :: "FileItem \<Rightarrow> jsstring" where
  "folderPathOf fileItem = foldl nextPath [] (pathParts fileItem)"

text \<open>
  The addresses held by \<open>rootFolders\<close> and by the \<open>children\<close> arrays, and what every
  state of the build satisfies: \<open>folderMap\<close> maps each path to the object with that path
  and holds every object; children are allocated after their parent, and every object is
  held exactly once; the files of an object belong under its path, and its videos are its
  files tagged \<open>isVideo\<close>.
\<close>

definition links :: "buildState \<Rightarrow> nat list" where
  "links s = rootFolders s @ concat (map objChildren (heap s))"

definition mapInv :: "buildState \<Rightarrow> bool" where
  "mapInv s =
     ((\<forall>p a. folderMap s p = Some a \<longrightarrow> a < length (heap s) \<and> objPath (heap s ! a) = p)
      \<and> (\<forall>a<length (heap s). folderMap s (objPath (heap s ! a)) = Some a))"

definition linkInv :: "buildState \<Rightarrow> bool" where
  "linkInv s =
     ((\<forall>a<length (heap s). \<forall>c\<in>set (objChildren (heap s ! a)). a < c \<and> c < length (heap s))
      \<and> mset (links s) = mset [0..<length (heap s)])"

definition fileInv :: "buildState \<Rightarrow> bool" where
  "fileInv s =
     (\<forall>a<length (heap s).
        (\<forall>f\<in>set (objAllFiles (heap s ! a)). folderPathOf f = objPath (heap s ! a))
        \<and> objVideos (heap s ! a) = map toVideoFile (filter isVideo (objAllFiles (heap s ! a))))"

definition heapInv :: "buildState \<Rightarrow> bool" where
  "heapInv s = (mapInv s \<and> linkInv s \<and> fileInv s)"

definition walkOk :: "jsstring \<times> nat option \<times> buildState \<Rightarrow> bool" where
  "walkOk st =
     (case st of (pp, cp, s) \<Rightarrow>
        heapInv s \<and> (case cp of None \<Rightarrow> pp = [] | Some a \<Rightarrow> folderMap s pp = Some a))"

text \<open>
  The folders of a forest at every depth; \<open>Array.prototype.join\<close> with a slash; a path
  without its final segment; and a path that does not begin with a slash.
\<close>

fun allNodes :: "FolderNode \<Rightarrow> FolderNode list" where
  "allNodes (FolderNode n p cs vs fs e) =
     FolderNode n p cs vs fs e # concat (map allNodes cs)"

definition forestNodes :: "FolderNode list \<Rightarrow> FolderNode list" where
  "forestNodes forest = concat (map allNodes forest)"

fun joinPath :: "jsstring list \<Rightarrow> jsstring" where
  "joinPath [] = []"
| "joinPath [x] = x"
| "joinPath (x # y # r) = x @ slash # joinPath (y # r)"

definition parentPathOf :: "jsstring \<Rightarrow> jsstring" where
  "parentPathOf p = joinPath (butlast (splitOn slash p))"

definition relativePath :: "jsstring \<Rightarrow> bool" where
  "relativePath p = (case p of [] \<Rightarrow> True | c # r \<Rightarrow> c \<noteq> slash)"

definition nodeOf :: "FolderObj \<Rightarrow> FolderNode \<Rightarrow> bool" where
  "nodeOf obj t =
     (name t = objName obj \<and> path t = objPath obj \<and> videos t = objVideos obj
      \<and> allFiles t = Some (objAllFiles obj) \<and> isExpanded t = Some (objIsExpanded obj))"

definition newFolder :: "jsstring \<Rightarrow> jsstring \<Rightarrow> FolderObj" where
  "newFolder n p = \<lparr> objName = n, objPath = p, objChildren = [], objVideos = [],
                     objAllFiles = [], objIsExpanded = False \<rparr>"

definition rootObject :: FolderObj where
  "rootObject = \<lparr> objName = rootName, objPath = [], objChildren = [], objVideos = [],
                  objAllFiles = [], objIsExpanded = True \<rparr>"

definition emptyFolder :: "FolderObj \<Rightarrow> bool" where
  "emptyFolder obj = (objChildren obj = [] \<and> objVideos obj = [] \<and> objAllFiles obj = [])"

definition newRoot :: "FolderObj \<Rightarrow> buildState \<Rightarrow> buildState" where
  "newRoot obj s = s\<lparr> heap := heap s @ [obj],
                      folderMap := (folderMap s)(objPath obj \<mapsto> length (heap s)),
                      rootFolders := rootFolders s @ [length (heap s)] \<rparr>"

definition newChild :: "nat \<Rightarrow> FolderObj \<Rightarrow> buildState \<Rightarrow> buildState" where
  "newChild parent obj s =
     pushChild parent (length (heap s))
       (s\<lparr> heap := heap s @ [obj],
           folderMap := (folderMap s)(objPath obj \<mapsto> length (heap s)) \<rparr>)"

text \<open>The files of the folders, in terms of the items placed so far.\<close>

definition itemsInv :: "FileItem list \<Rightarrow> buildState \<Rightarrow> bool" where
  "itemsInv items s =
     ((\<forall>a<length (heap s).
         objAllFiles (heap s ! a) = filter (\<lambda>g. folderPathOf g = objPath (heap s ! a)) items)
      \<and> (\<forall>g\<in>set items. folderMap s (folderPathOf g) \<noteq> None))"

section \<open>Sample data\<close>

text \<open>Small inputs on which the theorems below are evaluated.\<close>

definition sampleVideo :: "jsstring \<Rightarrow> jsstring \<Rightarrow> VideoFile" where
  "sampleVideo n p = \<lparr> videoFile = None, videoName = n, videoPath = p, videoSize = 1 \<rparr>"

definition sampleFolder :: "jsstring \<Rightarrow> VideoFile list \<Rightarrow> FolderNode" where
  "sampleFolder n vs =
     FolderNode n n [] vs
       (Some (map (\<lambda>v. \<lparr> itemFile = None, itemName = videoName v, itemPath = videoPath v,
                           itemSize = videoSize v, isVideo = True \<rparr>) vs))
       (Some False)"

definition sampleForest :: "FolderNode list" where
  "sampleForest =
     [FolderNode (js ''A'') (js ''A'')
        [FolderNode (js ''B'') (js ''A/B'') []
           [\<lparr> videoFile = Some \<lparr> fileName = js ''v1.mp4'', webkitRelativePath = js ''A/B/v1.mp4'',
                                 fileSize = 7, fileType = js ''video/mp4'' \<rparr>,
              videoName = js ''v1.mp4'', videoPath = js ''A/B/v1.mp4'', videoSize = 7 \<rparr>]
           (Some [\<lparr> itemFile = Some \<lparr> fileName = js ''v1.mp4'',
                                       webkitRelativePath = js ''A/B/v1.mp4'',
                                       fileSize = 7, fileType = js ''video/mp4'' \<rparr>,
                    itemName = js ''v1.mp4'', itemPath = js ''A/B/v1.mp4'', itemSize = 7,
                    isVideo = True \<rparr>])
           (Some False)]
        []
        (Some [\<lparr> itemFile = None, itemName = js ''n.txt'', itemPath = js ''A/n.txt'',
                 itemSize = 3, isVideo = False \<rparr>])
        (Some False)]"

definition sampleInfo :: cacheInfo where
  "sampleInfo = \<lparr> infoFolderName = js ''A'', infoTimestamp = 0, fileCount = 2 \<rparr>"

definition sampleContent :: cacheContent where
  "sampleContent =
     \<lparr> folderTree = Some (simplifyFolderTree sampleForest), contentTimestamp = Some 0 \<rparr>"

text \<open>A host in which both entries parse, read one day and eight days after the save.\<close>

definition freshJson :: jsonHost where
  "freshJson = \<lparr> parseInfo = (\<lambda>c. Some sampleInfo), parseContent = (\<lambda>c. Some sampleContent),
                 dateNow = 24 * 60 * 60 * 1000 \<rparr>"

definition expiredJson :: jsonHost where
  "expiredJson = \<lparr> parseInfo = (\<lambda>c. Some sampleInfo), parseContent = (\<lambda>c. Some sampleContent),
                   dateNow = 8 * 24 * 60 * 60 * 1000 \<rparr>"

text \<open>A host in which the content entry does not parse.\<close>

definition corruptJson :: jsonHost where
  "corruptJson = \<lparr> parseInfo = (\<lambda>c. Some sampleInfo), parseContent = (\<lambda>c. None),
                   dateNow = 24 * 60 * 60 * 1000 \<rparr>"

definition sampleStorage :: storage where
  "sampleStorage = \<lparr> folderCache = Some (js ''i''), folderContentCache = Some (js ''c'') \<rparr>"

definition sampleFile :: "jsstring \<Rightarrow> jsstring \<Rightarrow> File" where
  "sampleFile n p = \<lparr> fileName = n, webkitRelativePath = p, fileSize = 1, fileType = [] \<rparr>"

definition sampleFiles :: "File list" where
  "sampleFiles = [sampleFile (js ''b1.mp4'') (js ''A/b1.mp4''),
                  sampleFile (js ''a1.txt'') (js ''A/a1.txt''),
                  sampleFile (js ''B.mp4'') []]"

definition sampleItem :: "jsstring \<Rightarrow> jsstring \<Rightarrow> bool \<Rightarrow> FileItem" where
  "sampleItem n p v = \<lparr> itemFile = Some (sampleFile n (if p = n then [] else p)), itemName = n, itemPath = p,
       itemSize = 1, isVideo = v \<rparr>"

section \<open>Facts about the patterns\<close>

lemma isDigit_chDi: "\<not> isDigit chDi" by (simp add: isDigit_def chDi_def)
lemma units_not_digit: "u \<in> {chJie, chZhang, chKe} \<Longrightarrow> \<not> isDigit u \<and> u \<noteq> chDi"
  by (auto simp: isDigit_def chDi_def chJie_def chZhang_def chKe_def)

lemma matchLabelledAt_Some:
  "matchLabelledAt u s = Some ds \<Longrightarrow> \<exists>post. s = chDi # ds @ u # post \<and> ds \<noteq> [] \<and> (\<forall>c\<in>set ds. isDigit c)"
  apply (cases s)
   apply (simp add: matchLabelledAt_def)
  apply (auto simp: matchLabelledAt_def split: if_splits list.splits)
  subgoal for r d
    using takeWhile_dropWhile_id[of isDigit r] by metis
  subgoal using set_takeWhileD by fastforce
  done

lemma matchLabelled_Some:
  "matchLabelled u s = Some ds \<Longrightarrow> \<exists>pre post. s = pre @ chDi # ds @ u # post \<and> ds \<noteq> [] \<and> (\<forall>c\<in>set ds. isDigit c)"
proof (induction s)
  case Nil then show ?case by simp
next
  case (Cons c r)
  show ?case
  proof (cases "matchLabelledAt u (c # r)")
    case None
    with Cons.prems have "matchLabelled u r = Some ds" by simp
    from Cons.IH[OF this] obtain pre post where "r = pre @ chDi # ds @ u # post" "ds \<noteq> []" "\<forall>c\<in>set ds. isDigit c" by blast
    then have "c # r = (c # pre) @ chDi # ds @ u # post" by simp
    with \<open>ds \<noteq> []\<close> \<open>\<forall>c\<in>set ds. isDigit c\<close> show ?thesis by blast
  next
    case (Some a)
    with Cons.prems have "a = ds" by simp
    with Some matchLabelledAt_Some[of u "c # r" ds] obtain post where "c # r = [] @ chDi # ds @ u # post" "ds \<noteq> []" "\<forall>c\<in>set ds. isDigit c" by auto
    then show ?thesis by blast
  qed
qed

lemma matchLabelledAt_here:
  assumes "ds \<noteq> []" "\<forall>c\<in>set ds. isDigit c" "\<not> isDigit u"
  shows "matchLabelledAt u (chDi # ds @ u # post) = Some ds"
proof -
  have "takeWhile isDigit (ds @ u # post) = ds" using assms by (simp add: takeWhile_append2 cong: takeWhile_cong)
  moreover have "dropWhile isDigit (ds @ u # post) = u # post" using assms by (simp add: dropWhile_append2)
  ultimately show ?thesis using assms by (simp add: matchLabelledAt_def)
qed

lemma matchLabelled_exists:
  assumes "ds \<noteq> []" "\<forall>c\<in>set ds. isDigit c" "\<not> isDigit u"
  shows "\<exists>ds'. matchLabelled u (pre @ chDi # ds @ u # post) = Some ds'"
proof (induction pre)
  case Nil
  then show ?case using matchLabelledAt_here[OF assms] by simp
next
  case (Cons a pre)
  then show ?case by (cases "matchLabelledAt u (a # pre @ chDi # ds @ u # post)") auto
qed

lemma matchLabelledAt_not_chDi: "c \<noteq> chDi \<Longrightarrow> matchLabelledAt u (c # r) = None"
  by (simp add: matchLabelledAt_def)

lemma matchLabelled_no_marker: "chDi \<notin> set s \<Longrightarrow> matchLabelled u s = None"
  by (induction s) (auto simp: matchLabelledAt_not_chDi)

lemma matchLabelled_skip: "chDi \<notin> set pre \<Longrightarrow> matchLabelled u (pre @ s) = matchLabelled u s"
  by (induction pre) (auto simp: matchLabelledAt_not_chDi)

lemma matchLabelled_single:
  assumes "ds \<noteq> []" "\<forall>c\<in>set ds. isDigit c" "\<not> isDigit u" "chDi \<notin> set pre"
  shows "matchLabelled u (pre @ chDi # ds @ u # post) = Some ds"
  using assms by (simp add: matchLabelled_skip matchLabelledAt_here)

lemma matchLabelled_other_unit:
  assumes "ds \<noteq> []" "\<forall>c\<in>set ds. isDigit c" "u \<noteq> v" "\<not> isDigit u" "u \<noteq> chDi"
    "chDi \<notin> set pre" "chDi \<notin> set post"
  shows "matchLabelled v (pre @ chDi # ds @ u # post) = None"
proof -
  have here: "matchLabelledAt v (chDi # ds @ u # post) = None"
    using assms by (simp add: matchLabelledAt_def dropWhile_append2)
  have "chDi \<notin> set ds" using assms(2) isDigit_chDi by blast
  then have "chDi \<notin> set (ds @ u # post)" using assms by simp
  then have "matchLabelled v (ds @ u # post) = None" by (rule matchLabelled_no_marker)
  then show ?thesis using assms here by (simp add: matchLabelled_skip)
qed


lemma units_distinct: "chJie \<noteq> chZhang" "chJie \<noteq> chKe" "chZhang \<noteq> chKe"
  by (simp_all add: chJie_def chZhang_def chKe_def)

lemma extract_cases:
  "extractNumberFromFileName s =
     (case matchLabelled chJie s of Some ds \<Rightarrow> parseInt10 ds | None \<Rightarrow>
      case matchLabelled chZhang s of Some ds \<Rightarrow> parseInt10 ds | None \<Rightarrow>
      case matchLabelled chKe s of Some ds \<Rightarrow> parseInt10 ds | None \<Rightarrow>
      case matchLeading s of Some ds \<Rightarrow> parseInt10 ds | None \<Rightarrow>
      case matchAny s of Some ds \<Rightarrow> parseInt10 ds | None \<Rightarrow> Infinity)"
  by (simp add: extractNumberFromFileName_def patterns_def split: option.splits)

lemma extract_single_marker:
  assumes "u \<in> {chJie, chZhang, chKe}" "ds \<noteq> []" "\<forall>c\<in>set ds. isDigit c"
    "chDi \<notin> set pre" "chDi \<notin> set post"
  shows "extractNumberFromFileName (pre @ chDi # ds @ u # post) = parseInt10 ds"
proof -
  have u: "\<not> isDigit u" "u \<noteq> chDi" using units_not_digit[OF assms(1)] by auto
  have same: "matchLabelled u (pre @ chDi # ds @ u # post) = Some ds"
    using assms u by (simp add: matchLabelled_single)
  have other: "\<And>v. v \<noteq> u \<Longrightarrow> matchLabelled v (pre @ chDi # ds @ u # post) = None"
    using assms u by (simp add: matchLabelled_other_unit)
  from assms(1) consider "u = chJie" | "u = chZhang" | "u = chKe" by blast
  then show ?thesis
  proof cases
    case 1
    then show ?thesis using same by (simp add: extract_cases)
  next
    case 2
    then show ?thesis
      using same other[of chJie] units_distinct by (simp add: extract_cases)
  next
    case 3
    then show ?thesis
      using same other[of chJie] other[of chZhang] units_distinct by (simp add: extract_cases)
  qed
qed

lemma extract_labelled_occurrence:
  assumes "u \<in> {chJie, chZhang, chKe}" "ds \<noteq> []" "\<forall>c\<in>set ds. isDigit c"
    "s = pre @ chDi # ds @ u # post"
  shows "\<exists>u' pre' ds' post'. u' \<in> {chJie, chZhang, chKe} \<and> s = pre' @ chDi # ds' @ u' # post'
           \<and> ds' \<noteq> [] \<and> (\<forall>c\<in>set ds'. isDigit c) \<and> extractNumberFromFileName s = parseInt10 ds'"
proof -
  have u: "\<not> isDigit u" using units_not_digit[OF assms(1)] by auto
  obtain d where d: "matchLabelled u s = Some d"
    using matchLabelled_exists[OF assms(2,3) u, of pre post] assms(4) by auto
  have "\<exists>u' d'. u' \<in> {chJie, chZhang, chKe} \<and> matchLabelled u' s = Some d' \<and> extractNumberFromFileName s = parseInt10 d'"
  proof (cases "matchLabelled chJie s")
    case (Some a)
    then have "extractNumberFromFileName s = parseInt10 a" by (simp add: extract_cases)
    with Some show ?thesis by blast
  next
    case nj: None
    show ?thesis
    proof (cases "matchLabelled chZhang s")
      case (Some a)
      then have "extractNumberFromFileName s = parseInt10 a" using nj by (simp add: extract_cases)
      with Some show ?thesis by blast
    next
      case nz: None
      have "u = chKe" using assms(1) d nj nz by auto
      then have "extractNumberFromFileName s = parseInt10 d"
        using d nj nz by (simp add: extract_cases)
      with d \<open>u = chKe\<close> show ?thesis by blast
    qed
  qed
  then obtain u' d' where *: "u' \<in> {chJie, chZhang, chKe}" "matchLabelled u' s = Some d'"
     "extractNumberFromFileName s = parseInt10 d'" by blast
  from matchLabelled_Some[OF *(2)] * show ?thesis by blast
qed

lemma extract_no_match:
  assumes "\<forall>p\<in>set patterns. p s = None"
  shows "extractNumberFromFileName s = Infinity"
  using assms by (simp add: extract_cases patterns_def)

lemma matchAny_None_iff: "matchAny s = None \<longleftrightarrow> (\<forall>c\<in>set s. \<not> isDigit c)"
proof -
  have "(takeWhile isDigit (dropWhile (\<lambda>c. \<not> isDigit c) s) = []) = (\<forall>c\<in>set s. \<not> isDigit c)"
    by (induction s) auto
  then show ?thesis by (simp add: matchAny_def matchLeading_def)
qed

lemma extract_no_digit:
  assumes "\<forall>c\<in>set s. \<not> isDigit c"
  shows "extractNumberFromFileName s = Infinity"
proof -
  have "matchLabelled u s = None" for u
  proof (cases "matchLabelled u s")
    case (Some d)
    from matchLabelled_Some[OF Some] obtain pre post where
      "s = pre @ chDi # d @ u # post" "d \<noteq> []" "\<forall>c\<in>set d. isDigit c" by blast
    then have "hd d \<in> set s" "isDigit (hd d)" by auto
    with assms show ?thesis by blast
  qed simp
  moreover have "matchLeading s = None" using assms by (cases s) (auto simp: matchLeading_def)
  moreover have "matchAny s = None" using assms by (simp add: matchAny_None_iff)
  ultimately show ?thesis by (simp add: extract_cases)
qed

lemma compare_unnumbered_after:
  assumes "extractNumberFromFileName a = Infinity" "extractNumberFromFileName b \<noteq> Infinity"
  shows "0 < compareNames H a b \<and> compareNames H b a < 0"
  using assms by (cases "extractNumberFromFileName b") (auto simp: compareNames_def)


text \<open>
  C5. The key is a function of the name, and the labelled patterns have priority. A name
  with a single labelled marker, surrounded by any text, digit runs included, gets the
  integer of the labelled run. In general, when a labelled pattern occurs in the name the
  key is the integer of an occurrence of a labelled pattern. When none of the five
  patterns matches (in particular when the name has no digit) the key is \<open>Infinity\<close>,
  and the comparator puts such a name after every name with a finite key.
\<close>

theorem extractNumber_pattern_priority:
  "(u \<in> {chJie, chZhang, chKe} \<and> ds \<noteq> [] \<and> (\<forall>c\<in>set ds. isDigit c)
      \<and> chDi \<notin> set pre \<and> chDi \<notin> set post
     \<longrightarrow> extractNumberFromFileName (pre @ chDi # ds @ u # post) = parseInt10 ds)
   \<and> (u \<in> {chJie, chZhang, chKe} \<and> ds \<noteq> [] \<and> (\<forall>c\<in>set ds. isDigit c)
      \<longrightarrow> (\<exists>u' pre' ds' post'. u' \<in> {chJie, chZhang, chKe}
             \<and> pre @ chDi # ds @ u # post = pre' @ chDi # ds' @ u' # post'
             \<and> ds' \<noteq> [] \<and> (\<forall>c\<in>set ds'. isDigit c)
             \<and> extractNumberFromFileName (pre @ chDi # ds @ u # post) = parseInt10 ds'))
   \<and> ((\<forall>p\<in>set patterns. p s = None) \<longrightarrow> extractNumberFromFileName s = Infinity)
   \<and> ((\<forall>c\<in>set s. \<not> isDigit c) \<longrightarrow> extractNumberFromFileName s = Infinity)
   \<and> (extractNumberFromFileName a = Infinity \<and> extractNumberFromFileName b \<noteq> Infinity
      \<longrightarrow> 0 < compareNames H a b \<and> compareNames H b a < 0)"
proof (intro conjI impI)
  assume "u \<in> {chJie, chZhang, chKe} \<and> ds \<noteq> [] \<and> (\<forall>c\<in>set ds. isDigit c)
      \<and> chDi \<notin> set pre \<and> chDi \<notin> set post"
  then show "extractNumberFromFileName (pre @ chDi # ds @ u # post) = parseInt10 ds"
    using extract_single_marker by blast
next
  assume "u \<in> {chJie, chZhang, chKe} \<and> ds \<noteq> [] \<and> (\<forall>c\<in>set ds. isDigit c)"
  then show "\<exists>u' pre' ds' post'. u' \<in> {chJie, chZhang, chKe}
             \<and> pre @ chDi # ds @ u # post = pre' @ chDi # ds' @ u' # post'
             \<and> ds' \<noteq> [] \<and> (\<forall>c\<in>set ds'. isDigit c)
             \<and> extractNumberFromFileName (pre @ chDi # ds @ u # post) = parseInt10 ds'"
    using extract_labelled_occurrence[of u ds "pre @ chDi # ds @ u # post" pre post] by blast
next
  assume "\<forall>p\<in>set patterns. p s = None"
  then show "extractNumberFromFileName s = Infinity" by (rule extract_no_match)
next
  assume "\<forall>c\<in>set s. \<not> isDigit c"
  then show "extractNumberFromFileName s = Infinity" by (rule extract_no_digit)
next
  assume *: "extractNumberFromFileName a = Infinity \<and> extractNumberFromFileName b \<noteq> Infinity"
  then show "0 < compareNames H a b" using compare_unnumbered_after by blast
  from * show "compareNames H b a < 0" using compare_unnumbered_after by blast
qed

lemmas extract_eval = extractNumberFromFileName_def patterns_def js_def matchLabelledAt_def
  matchLeading_def matchAny_def isDigit_def parseInt10_def decimalValue_def digitValue_def
  toNumber_def chDi_def

theorem extractNumber_pattern_priority_witness:
  "extractNumberFromFileName (js ''2023 '' @ chDi # js ''5'' @ chJie # js '' part 3.mp4'') = Finite 5
   \<and> extractNumberFromFileName (js ''intro'') = Infinity
   \<and> 0 < compareNames plainHost (js ''intro'') (js ''ep2'')"
proof -
  have h1a: "chJie \<in> {chJie, chZhang, chKe}" by simp
  have h1b: "js ''5'' \<noteq> []" by (simp add: js_def)
  have h1c: "\<forall>c\<in>set (js ''5''). isDigit c" by (simp add: js_def isDigit_def)
  have h1d: "chDi \<notin> set (js ''2023 '')" by (simp add: js_def chDi_def)
  have h1e: "chDi \<notin> set (js '' part 3.mp4'')" by (simp add: js_def chDi_def)
  have h3: "\<forall>c\<in>set (js ''intro''). \<not> isDigit c" by (simp add: js_def isDigit_def)
  have h5: "extractNumberFromFileName (js ''ep2'') \<noteq> Infinity" by (simp add: extract_eval)
  have p: "parseInt10 (js ''5'') = Finite 5" by (simp add: extract_eval)
  note T = extractNumber_pattern_priority[where u = chJie and ds = "js ''5''" and pre = "js ''2023 ''"
      and post = "js '' part 3.mp4''" and s = "js ''intro''" and a = "js ''intro''"
      and b = "js ''ep2''" and H = plainHost]
  have c1: "extractNumberFromFileName (js ''2023 '' @ chDi # js ''5'' @ chJie # js '' part 3.mp4'') = parseInt10 (js ''5'')"
    using T[THEN conjunct1, THEN mp, OF conjI[OF h1a conjI[OF h1b conjI[OF h1c conjI[OF h1d h1e]]]]] .
  have c2: "extractNumberFromFileName (js ''intro'') = Infinity"
    using T[THEN conjunct2, THEN conjunct2, THEN conjunct2, THEN conjunct1, THEN mp, OF h3] .
  have c3: "0 < compareNames plainHost (js ''intro'') (js ''ep2'')"
    using T[THEN conjunct2, THEN conjunct2, THEN conjunct2, THEN conjunct2, THEN mp, OF conjI[OF c2 h5]] by (rule conjunct1)
  show ?thesis using c1 c2 c3 p by (simp only: simp_thms)
qed

section \<open>Facts about sorting\<close>

lemma set_insertSorted [simp]: "set (insertSorted cmp x ys) = insert x (set ys)"
  by (induction ys) auto

lemma cc_total: "consistentComparator cmp \<Longrightarrow> cmp a b \<le> 0 \<or> cmp b a \<le> 0"
  unfolding consistentComparator_def by (metis linorder_not_less order_less_imp_le)

lemma cc_sym0: "consistentComparator cmp \<Longrightarrow> cmp a b = 0 \<Longrightarrow> cmp b a = 0"
  unfolding consistentComparator_def by blast

lemma cc_trans:
  assumes "consistentComparator cmp" "cmp a b \<le> 0" "cmp b c \<le> 0"
  shows "cmp a c \<le> 0"
proof (rule ccontr)
  assume "\<not> cmp a c \<le> 0"
  then have ca: "cmp c a < 0" using assms(1) unfolding consistentComparator_def by (metis linorder_not_less)
  have sym: "\<And>x y. (cmp x y = 0) = (cmp y x = 0)" and mir: "\<And>x y. (cmp x y < 0) = (0 < cmp y x)"
    and t0: "\<And>x y z. cmp x y = 0 \<Longrightarrow> cmp y z = 0 \<Longrightarrow> cmp x z = 0"
    and tl: "\<And>x y z. cmp x y < 0 \<Longrightarrow> cmp y z < 0 \<Longrightarrow> cmp x z < 0"
    and refl: "\<And>x. cmp x x = 0"
    using assms(1) unfolding consistentComparator_def by blast+
  consider "cmp a b < 0" | "cmp a b = 0" using assms(2) by linarith
  then show False
  proof cases
    case 1
    have cb: "cmp c b < 0" using tl[OF ca 1] .
    then have "0 < cmp b c" using mir by blast
    with assms(3) show False by simp
  next
    case 2
    consider "cmp b c < 0" | "cmp b c = 0" using assms(3) by linarith
    then show False
    proof cases
      case 1
      from tl[OF 1 ca] have "cmp b a < 0" .
      moreover have "cmp b a = 0" using 2 sym by blast
      ultimately show False by simp
    next
      case 2
      from t0[OF \<open>cmp a b = 0\<close> 2] have "cmp a c = 0" .
      then have "cmp c a = 0" using sym by blast
      with ca show False by simp
    qed
  qed
qed

lemma sorted_insertSorted:
  assumes "consistentComparator cmp" "sorted_wrt (\<lambda>a b. cmp a b \<le> 0) ys"
  shows "sorted_wrt (\<lambda>a b. cmp a b \<le> 0) (insertSorted cmp x ys)"
  using assms(2)
proof (induction ys)
  case Nil then show ?case by simp
next
  case (Cons y ys)
  show ?case
  proof (cases "cmp x y \<le> 0")
    case True
    have "\<forall>z\<in>set ys. cmp x z \<le> 0" using Cons.prems True cc_trans[OF assms(1)] by auto
    with True Cons.prems show ?thesis by simp
  next
    case False
    then have "cmp y x \<le> 0" using cc_total[OF assms(1)] by blast
    with False Cons show ?thesis by auto
  qed
qed

lemma sorted_arraySort:
  "consistentComparator cmp \<Longrightarrow> sorted_wrt (\<lambda>a b. cmp a b \<le> 0) (arraySort cmp xs)"
  by (induction xs) (auto simp: arraySort_Cons sorted_insertSorted)

lemma insertSorted_head: "(\<forall>y\<in>set ys. cmp x y \<le> 0) \<Longrightarrow> insertSorted cmp x ys = x # ys"
  by (cases ys) auto

lemma filter_insertSorted:
  assumes "consistentComparator cmp" "sorted_wrt (\<lambda>a b. cmp a b \<le> 0) ys"
  shows "filter P (insertSorted cmp x ys) =
           (if P x then insertSorted cmp x (filter P ys) else filter P ys)"
  using assms(2)
proof (induction ys)
  case Nil then show ?case by simp
next
  case (Cons y ys)
  show ?case
  proof (cases "cmp x y \<le> 0")
    case True
    have "\<forall>z\<in>set ys. cmp x z \<le> 0" using Cons.prems True cc_trans[OF assms(1)] by auto
    then have "\<forall>z\<in>set (filter P (y # ys)). cmp x z \<le> 0" using True by auto
    then have "insertSorted cmp x (filter P (y # ys)) = x # filter P (y # ys)"
      by (rule insertSorted_head)
    with True show ?thesis by simp
  next
    case False
    with Cons show ?thesis by auto
  qed
qed

lemma filter_arraySort:
  "consistentComparator cmp \<Longrightarrow> filter P (arraySort cmp xs) = arraySort cmp (filter P xs)"
  by (induction xs) (auto simp: arraySort_Cons filter_insertSorted sorted_arraySort)

lemma arraySort_sorted_id:
  "sorted_wrt (\<lambda>a b. cmp a b \<le> 0) xs \<Longrightarrow> arraySort cmp xs = xs"
  by (induction xs) (auto simp: arraySort_Cons insertSorted_head)

lemma arraySort_stable:
  assumes "consistentComparator cmp"
  shows "filter (\<lambda>y. cmp a y = 0) (arraySort cmp xs) = filter (\<lambda>y. cmp a y = 0) xs"
proof -
  have "\<And>y z. cmp a y = 0 \<Longrightarrow> cmp a z = 0 \<Longrightarrow> cmp y z \<le> 0"
    using assms unfolding consistentComparator_def by (metis order_refl)
  then have "sorted_wrt (\<lambda>a b. cmp a b \<le> 0) (filter (\<lambda>y. cmp a y = 0) xs)"
    by (induction xs) auto
  then show ?thesis by (simp add: filter_arraySort[OF assms] arraySort_sorted_id)
qed

lemma insertSorted_map:
  "insertSorted cmp (f x) (map f ys) = map f (insertSorted (\<lambda>a b. cmp (f a) (f b)) x ys)"
  by (induction ys) auto

lemma arraySort_map:
  "arraySort cmp (map f xs) = map f (arraySort (\<lambda>a b. cmp (f a) (f b)) xs)"
  by (induction xs) (auto simp: arraySort_Cons insertSorted_map)

lemma consistent_comp:
  "consistentComparator cmp \<Longrightarrow> consistentComparator (\<lambda>a b. cmp (f a) (f b))"
  unfolding consistentComparator_def by blast

lemma consistent_compareNames:
  assumes "consistentComparator (localeCompare H)"
  shows "consistentComparator (compareNames H)"
proof -
  have sym: "\<And>x y. (localeCompare H x y = 0) = (localeCompare H y x = 0)"
    and mir: "\<And>x y. (localeCompare H x y < 0) = (0 < localeCompare H y x)"
    and t0: "\<And>x y z. localeCompare H x y = 0 \<Longrightarrow> localeCompare H y z = 0 \<Longrightarrow> localeCompare H x z = 0"
    and tl: "\<And>x y z. localeCompare H x y < 0 \<Longrightarrow> localeCompare H y z < 0 \<Longrightarrow> localeCompare H x z < 0"
    and refl: "\<And>x. localeCompare H x x = 0"
    using assms unfolding consistentComparator_def by blast+
  show ?thesis
    unfolding consistentComparator_def
  proof (intro conjI allI impI)
    fix a show "compareNames H a a = 0"
      by (cases "extractNumberFromFileName a") (auto simp: compareNames_def refl)
  next
    fix a b show "(compareNames H a b = 0) = (compareNames H b a = 0)"
      using sym[of a b]
      by (cases "extractNumberFromFileName a"; cases "extractNumberFromFileName b")
         (auto simp: compareNames_def)
  next
    fix a b show "(compareNames H a b < 0) = (0 < compareNames H b a)"
      using mir[of a b]
      by (cases "extractNumberFromFileName a"; cases "extractNumberFromFileName b")
         (auto simp: compareNames_def)
  next
    fix a b c assume "compareNames H a b = 0 \<and> compareNames H b c = 0"
    then show "compareNames H a c = 0"
      using t0[of a b c]
      by (cases "extractNumberFromFileName a"; cases "extractNumberFromFileName b";
          cases "extractNumberFromFileName c")
         (auto simp: compareNames_def)
  next
    fix a b c assume "compareNames H a b < 0 \<and> compareNames H b c < 0"
    then show "compareNames H a c < 0"
      using tl[of a b c]
      by (cases "extractNumberFromFileName a"; cases "extractNumberFromFileName b";
          cases "extractNumberFromFileName c")
         (auto simp: compareNames_def)
  qed
qed

lemma consistent_codeUnitCompare: "consistentComparator codeUnitCompare"
  unfolding consistentComparator_def codeUnitCompare_def by (auto simp: not_less_iff_gr_or_eq)



lemma compareNames_le_cases:
  "compareNames H a b \<le> 0 \<longleftrightarrow>
     (case (extractNumberFromFileName a, extractNumberFromFileName b) of
        (Finite x, Finite y) \<Rightarrow> x \<le> y
      | (Finite x, Infinity) \<Rightarrow> True
      | (Infinity, Finite y) \<Rightarrow> False
      | (Infinity, Infinity) \<Rightarrow> localeCompare H a b \<le> 0)"
  by (cases "extractNumberFromFileName a"; cases "extractNumberFromFileName b")
     (auto simp: compareNames_def)

lemma sorted_sortFilesByNumber:
  assumes "consistentComparator (localeCompare H)"
  shows "sorted_wrt (\<lambda>a b. compareNames H (nm a) (nm b) \<le> 0) (sortFilesByNumber H nm files)"
  unfolding sortFilesByNumber_def
  by (rule sorted_arraySort[OF consistent_comp[OF consistent_compareNames[OF assms]]])

lemma example_keys:
  "extractNumberFromFileName (js ''episode10.mp4'') = Finite 10"
  "extractNumberFromFileName (js ''episode2.mp4'') = Finite 2"
  "extractNumberFromFileName (js ''intro.mp4'') = Finite 4"
  by (simp_all add: extract_eval)

lemma example_sorted:
  "sortFilesByNumber H id [js ''episode10.mp4'', js ''episode2.mp4'', js ''intro.mp4'']
     = [js ''episode2.mp4'', js ''intro.mp4'', js ''episode10.mp4'']"
  by (simp add: sortFilesByNumber_def arraySort_def compareNames_def example_keys)

text \<open>
  C4, as the code has it. For a host whose \<open>localeCompare\<close> is a consistent comparator,
  \<open>sortFilesByNumber\<close> returns a permutation of its argument in which no item without a
  key precedes an item with a key, the items with keys are in ascending order of their
  keys, the items without keys are in \<open>localeCompare\<close> order of their names, and items
  that compare equal keep their input order. The key of \<open>intro.mp4\<close> is 4, the digit of
  its extension, so the example list is sorted to \<open>episode2.mp4\<close>, \<open>intro.mp4\<close>,
  \<open>episode10.mp4\<close>.
\<close>

theorem sortFilesByNumber_natural_order:
  assumes "consistentComparator (localeCompare H)"
  shows "mset (sortFilesByNumber H nm files) = mset files
    \<and> sorted_wrt (\<lambda>a b. extractNumberFromFileName (nm a) = Infinity
                         \<longrightarrow> extractNumberFromFileName (nm b) = Infinity)
        (sortFilesByNumber H nm files)
    \<and> sorted_wrt (\<lambda>a b. \<forall>x y. extractNumberFromFileName (nm a) = Finite x
                         \<and> extractNumberFromFileName (nm b) = Finite y \<longrightarrow> x \<le> y)
        (sortFilesByNumber H nm files)
    \<and> sorted_wrt (\<lambda>a b. extractNumberFromFileName (nm a) = Infinity
                         \<and> extractNumberFromFileName (nm b) = Infinity
                         \<longrightarrow> localeCompare H (nm a) (nm b) \<le> 0)
        (sortFilesByNumber H nm files)
    \<and> (\<forall>a. filter (\<lambda>y. compareNames H (nm a) (nm y) = 0) (sortFilesByNumber H nm files)
           = filter (\<lambda>y. compareNames H (nm a) (nm y) = 0) files)
    \<and> sortFilesByNumber H id [js ''episode10.mp4'', js ''episode2.mp4'', js ''intro.mp4'']
        = [js ''episode2.mp4'', js ''intro.mp4'', js ''episode10.mp4'']"
proof -
  let ?ys = "sortFilesByNumber H nm files"
  have srt: "sorted_wrt (\<lambda>a b. compareNames H (nm a) (nm b) \<le> 0) ?ys"
    by (rule sorted_sortFilesByNumber[OF assms])
  have 1: "mset ?ys = mset files" by (simp add: sortFilesByNumber_def)
  have 2: "sorted_wrt (\<lambda>a b. extractNumberFromFileName (nm a) = Infinity
                         \<longrightarrow> extractNumberFromFileName (nm b) = Infinity) ?ys"
    by (rule sorted_wrt_mono_rel[OF _ srt])
       (auto simp: compareNames_le_cases split: jsnum.splits)
  have 3: "sorted_wrt (\<lambda>a b. \<forall>x y. extractNumberFromFileName (nm a) = Finite x
                         \<and> extractNumberFromFileName (nm b) = Finite y \<longrightarrow> x \<le> y) ?ys"
    by (rule sorted_wrt_mono_rel[OF _ srt])
       (auto simp: compareNames_le_cases split: jsnum.splits)
  have 4: "sorted_wrt (\<lambda>a b. extractNumberFromFileName (nm a) = Infinity
                         \<and> extractNumberFromFileName (nm b) = Infinity
                         \<longrightarrow> localeCompare H (nm a) (nm b) \<le> 0) ?ys"
    by (rule sorted_wrt_mono_rel[OF _ srt])
       (auto simp: compareNames_le_cases split: jsnum.splits)
  have 5: "\<forall>a. filter (\<lambda>y. compareNames H (nm a) (nm y) = 0) ?ys
           = filter (\<lambda>y. compareNames H (nm a) (nm y) = 0) files"
    unfolding sortFilesByNumber_def
    using arraySort_stable[OF consistent_comp[OF consistent_compareNames[OF assms]], of nm]
    by blast
  show ?thesis using 1 2 3 4 5 example_sorted by blast
qed

text \<open>
  The example of C4 as the specification states it fails: \<open>intro.mp4\<close> has the key 4
  and is sorted between \<open>episode2.mp4\<close> and \<open>episode10.mp4\<close>.
\<close>

theorem sortFilesByNumber_example_counterexample:
  "extractNumberFromFileName (js ''intro.mp4'') = Finite 4
   \<and> sortFilesByNumber plainHost id [js ''episode10.mp4'', js ''episode2.mp4'', js ''intro.mp4'']
        = [js ''episode2.mp4'', js ''intro.mp4'', js ''episode10.mp4'']
   \<and> sortFilesByNumber plainHost id [js ''episode10.mp4'', js ''episode2.mp4'', js ''intro.mp4'']
        \<noteq> [js ''episode2.mp4'', js ''episode10.mp4'', js ''intro.mp4'']"
proof -
  have a: "extractNumberFromFileName (js ''intro.mp4'') = Finite 4" by (rule example_keys)
  have b: "sortFilesByNumber plainHost id [js ''episode10.mp4'', js ''episode2.mp4'', js ''intro.mp4'']
        = [js ''episode2.mp4'', js ''intro.mp4'', js ''episode10.mp4'']" by (rule example_sorted)
  have c: "[js ''episode2.mp4'', js ''intro.mp4'', js ''episode10.mp4'']
        \<noteq> [js ''episode2.mp4'', js ''episode10.mp4'', js ''intro.mp4'']" by (simp add: js_def)
  show ?thesis using a b c by (simp only: simp_thms)
qed

lemma consistent_plainHost: "consistentComparator (localeCompare plainHost)"
  by (simp add: plainHost_def consistent_codeUnitCompare)

theorem sortFilesByNumber_natural_order_witness:
  "consistentComparator (localeCompare plainHost)
   \<and> sortFilesByNumber plainHost id [js ''b'', js ''x10'', js ''a'', js ''y2'', js ''z10'']
       = [js ''y2'', js ''x10'', js ''z10'', js ''a'', js ''b'']
   \<and> mset (sortFilesByNumber plainHost id [js ''b'', js ''x10'', js ''a'', js ''y2'', js ''z10''])
       = mset [js ''b'', js ''x10'', js ''a'', js ''y2'', js ''z10'']
   \<and> sorted_wrt (\<lambda>a b. extractNumberFromFileName (id a) = Infinity
                         \<longrightarrow> extractNumberFromFileName (id b) = Infinity)
        (sortFilesByNumber plainHost id [js ''b'', js ''x10'', js ''a'', js ''y2'', js ''z10''])"
proof -
  have k: "extractNumberFromFileName (js ''b'') = Infinity"
    "extractNumberFromFileName (js ''a'') = Infinity"
    "extractNumberFromFileName (js ''x10'') = Finite 10"
    "extractNumberFromFileName (js ''y2'') = Finite 2"
    "extractNumberFromFileName (js ''z10'') = Finite 10"
    by (simp_all add: extract_eval)
  have l: "codeUnitCompare (js ''b'') (js ''a'') = 1" by (simp add: codeUnitCompare_def js_def)
  have e: "sortFilesByNumber plainHost id [js ''b'', js ''x10'', js ''a'', js ''y2'', js ''z10'']
       = [js ''y2'', js ''x10'', js ''z10'', js ''a'', js ''b'']"
    by (simp add: sortFilesByNumber_def arraySort_def compareNames_def k l plainHost_def)
  note T = sortFilesByNumber_natural_order[OF consistent_plainHost, of id
      "[js ''b'', js ''x10'', js ''a'', js ''y2'', js ''z10'']"]
  show ?thesis using consistent_plainHost e T by blast
qed


section \<open>Facts about searching\<close>

lemma startsWith_iff: "startsWith s sub \<longleftrightarrow> (\<exists>post. s = sub @ post)"
  by (induction s sub rule: startsWith.induct) auto

lemma stringIncludes_iff: "stringIncludes s sub \<longleftrightarrow> (\<exists>pre post. s = pre @ sub @ post)"
proof (induction s)
  case Nil
  then show ?case by (cases sub) auto
next
  case (Cons d s)
  show ?case
  proof
    assume "stringIncludes (d # s) sub"
    then consider "startsWith (d # s) sub" | "stringIncludes s sub" by auto
    then show "\<exists>pre post. d # s = pre @ sub @ post"
    proof cases
      case 1
      then obtain post where "d # s = [] @ sub @ post" by (auto simp: startsWith_iff)
      then show ?thesis by blast
    next
      case 2
      then obtain pre post where "s = pre @ sub @ post" using Cons.IH by blast
      then have "d # s = (d # pre) @ sub @ post" by simp
      then show ?thesis by blast
    qed
  next
    assume "\<exists>pre post. d # s = pre @ sub @ post"
    then obtain pre post where eq: "d # s = pre @ sub @ post" by blast
    show "stringIncludes (d # s) sub"
    proof (cases pre)
      case Nil
      with eq have "startsWith (d # s) sub" by (auto simp: startsWith_iff)
      then show ?thesis by simp
    next
      case (Cons e pre')
      with eq have "s = pre' @ sub @ post" by simp
      then have "stringIncludes s sub" using Cons.IH by blast
      then show ?thesis by simp
    qed
  qed
qed

lemma stringIncludes_empty [simp]: "stringIncludes s []"
proof -
  have "s = [] @ [] @ s" by simp
  then show ?thesis unfolding stringIncludes_iff by blast
qed

lemma foldl_append_concat: "foldl (\<lambda>acc x. acc @ f x) acc xs = acc @ concat (map f xs)"
  by (induction xs arbitrary: acc) auto

lemma foldl_push_filter:
  "foldl (\<lambda>res v. if P v then res @ [v] else res) acc vs = acc @ filter P vs"
  by (induction vs arbitrary: acc) auto

lemma getAllVideosFromFolder_eq:
  "getAllVideosFromFolder (FolderNode n p cs vs fs e) = vs @ concat (map getAllVideosFromFolder cs)"
  by (simp add: foldl_append_concat)

lemma foldl_search_children:
  assumes "\<And>child res. child \<in> set cs \<Longrightarrow> f child res = res @ g child"
  shows "foldl (\<lambda>res child. f child res) acc cs = acc @ concat (map g cs)"
  using assms by (induction cs arbitrary: acc) auto

lemma searchInFolder_eq:
  "searchInFolder H t folder results
     = results @ filter (\<lambda>v. stringIncludes (toLowerCase H (videoName v)) t) (getAllVideosFromFolder folder)"
proof (induction H t folder results rule: searchInFolder.induct)
  case (1 H t n p cs vs fs e results)
  let ?P = "\<lambda>v. stringIncludes (toLowerCase H (videoName v)) t"
  have IH: "\<And>child res. child \<in> set cs \<Longrightarrow>
      searchInFolder H t child res = res @ filter ?P (getAllVideosFromFolder child)"
    using 1 by blast
  have "searchInFolder H t (FolderNode n p cs vs fs e) results
      = foldl (\<lambda>res child. searchInFolder H t child res) (results @ filter ?P vs) cs"
    by (simp add: foldl_push_filter)
  also have "\<dots> = (results @ filter ?P vs) @ concat (map (\<lambda>c. filter ?P (getAllVideosFromFolder c)) cs)"
    by (rule foldl_search_children) (rule IH)
  also have "\<dots> = results @ filter ?P (getAllVideosFromFolder (FolderNode n p cs vs fs e))"
    by (simp add: getAllVideosFromFolder_eq filter_concat comp_def del: getAllVideosFromFolder.simps)
  finally show ?case .
qed

lemma searchVideos_eq:
  "searchVideos H fs q
     = filter (\<lambda>v. stringIncludes (toLowerCase H (videoName v)) (toLowerCase H q))
         (concat (map getAllVideosFromFolder fs))"
proof -
  let ?P = "\<lambda>v. stringIncludes (toLowerCase H (videoName v)) (toLowerCase H q)"
  have "searchVideos H fs q = [] @ concat (map (\<lambda>c. filter ?P (getAllVideosFromFolder c)) fs)"
    unfolding searchVideos_def
    by (rule foldl_search_children) (simp add: searchInFolder_eq)
  then show ?thesis by (simp add: filter_concat comp_def)
qed

lemma trim_blank:
  assumes "\<forall>c\<in>set v. isWhiteSpace c"
  shows "trim v = []"
proof -
  have "dropWhile isWhiteSpace v = []" using assms by (induction v) auto
  then have "rev (dropWhile isWhiteSpace (rev (dropWhile isWhiteSpace v))) = []"
    by (simp only: rev.simps dropWhile.simps)
  then show ?thesis by (simp only: trim_def)
qed

lemma trim_empty_iff: "trim v = [] \<longleftrightarrow> (\<forall>c\<in>set v. isWhiteSpace c)"
proof
  assume "trim v = []"
  then have "dropWhile isWhiteSpace (rev (dropWhile isWhiteSpace v)) = []" by (simp add: trim_def)
  then have "\<forall>c\<in>set (rev (dropWhile isWhiteSpace v)). isWhiteSpace c"
    by (simp add: dropWhile_eq_Nil_conv)
  then have "\<forall>c\<in>set (dropWhile isWhiteSpace v). isWhiteSpace c" by simp
  then have "dropWhile isWhiteSpace v = []"
    by (metis dropWhile_eq_Nil_conv dropWhile_idem)
  then show "\<forall>c\<in>set v. isWhiteSpace c" by (simp add: dropWhile_eq_Nil_conv)
qed (rule trim_blank)

text \<open>
  C2, as the code has it. The guard against an empty or whitespace-only term is in
  \<open>handleSearch\<close>: with such a term it stores the empty result list, whatever the
  forest. \<open>searchVideos\<close> has no guard: with the empty term it returns every video of
  the forest, in pre-order (for a host that lower-cases the empty string to itself).
\<close>

theorem handleSearch_blank_term:
  "((\<forall>c\<in>set v. isWhiteSpace c) \<longrightarrow> searchResults (handleSearch H st v) = [])
   \<and> (toLowerCase H [] = [] \<longrightarrow>
        searchVideos H fs [] = concat (map getAllVideosFromFolder fs))"
proof (intro conjI impI)
  assume "\<forall>c\<in>set v. isWhiteSpace c"
  then have "trim v = []" by (rule trim_blank)
  then show "searchResults (handleSearch H st v) = []" by (simp add: handleSearch_def)
next
  assume "toLowerCase H [] = []"
  then show "searchVideos H fs [] = concat (map getAllVideosFromFolder fs)"
    by (simp add: searchVideos_eq)
qed

lemmas search_eval = searchVideos_def sampleFolder_def sampleVideo_def plainHost_def js_def
  asciiLower_def

text \<open>
  \<open>searchVideos\<close> with the empty term returns the video of the folder, not the empty
  sequence that C2 states.
\<close>

theorem searchVideos_empty_term_counterexample:
  "searchVideos plainHost [sampleFolder (js ''A'') [sampleVideo (js ''a.mp4'') (js ''A/a.mp4'')]] []
     = [sampleVideo (js ''a.mp4'') (js ''A/a.mp4'')]
   \<and> searchVideos plainHost [sampleFolder (js ''A'') [sampleVideo (js ''a.mp4'') (js ''A/a.mp4'')]] []
     \<noteq> []"
  by (simp add: search_eval)

theorem handleSearch_blank_term_witness:
  "list_all isWhiteSpace (js ''  '')
   \<and> searchResults (handleSearch plainHost
        (initialState\<lparr>folders := [sampleFolder (js ''A'') [sampleVideo (js ''a.mp4'') (js ''A/a.mp4'')]]\<rparr>)
        (js ''  '')) = []
   \<and> toLowerCase plainHost [] = []
   \<and> searchVideos plainHost [sampleFolder (js ''A'') [sampleVideo (js ''a.mp4'') (js ''A/a.mp4'')]] []
     = concat (map getAllVideosFromFolder [sampleFolder (js ''A'') [sampleVideo (js ''a.mp4'') (js ''A/a.mp4'')]])"
proof -
  have h1: "\<forall>c\<in>set (js ''  ''). isWhiteSpace c" by (simp add: js_def isWhiteSpace_def)
  have h2: "toLowerCase plainHost [] = []" by (simp add: plainHost_def)
  note T = handleSearch_blank_term[where v = "js ''  ''" and H = plainHost
     and st = "initialState\<lparr>folders := [sampleFolder (js ''A'') [sampleVideo (js ''a.mp4'') (js ''A/a.mp4'')]]\<rparr>"
     and fs = "[sampleFolder (js ''A'') [sampleVideo (js ''a.mp4'') (js ''A/a.mp4'')]]"]
  have h0: "list_all isWhiteSpace (js ''  '')" using h1 by (simp only: list_all_iff)
  show ?thesis
    using h0 h2 T[THEN conjunct1, THEN mp, OF h1] T[THEN conjunct2, THEN mp, OF h2]
    by (simp only: simp_thms)
qed

text \<open>
  C3, as the code has it. For every forest and every term, \<open>searchVideos\<close> returns
  exactly the entries of the \<open>videos\<close> lists, in depth-first pre-order, whose
  lower-cased name contains the lower-cased term as a substring; it does not sort them.
  \<open>handleSearch\<close> sorts: for a term that is not whitespace-only it stores
  \<open>sortFilesByNumber\<close> of that sequence, which for a consistent \<open>localeCompare\<close> is a
  permutation of it in natural-sort order.
\<close>

theorem searchVideos_matches:
  "searchVideos H fs q
     = filter (\<lambda>v. stringIncludes (toLowerCase H (videoName v)) (toLowerCase H q))
         (concat (map getAllVideosFromFolder fs))
   \<and> (stringIncludes s sub \<longleftrightarrow> (\<exists>pre post. s = pre @ sub @ post))
   \<and> (trim q \<noteq> [] \<longrightarrow>
        searchResults (handleSearch H st q)
          = sortFilesByNumber H videoName (searchVideos H (folders st) q))
   \<and> (consistentComparator (localeCompare H) \<and> trim q \<noteq> [] \<longrightarrow>
        sorted_wrt (\<lambda>a b. compareNames H (videoName a) (videoName b) \<le> 0)
          (searchResults (handleSearch H st q))
        \<and> mset (searchResults (handleSearch H st q)) = mset (searchVideos H (folders st) q))"
proof (intro conjI impI)
  show "searchVideos H fs q
     = filter (\<lambda>v. stringIncludes (toLowerCase H (videoName v)) (toLowerCase H q))
         (concat (map getAllVideosFromFolder fs))"
    by (rule searchVideos_eq)
  show "stringIncludes s sub \<longleftrightarrow> (\<exists>pre post. s = pre @ sub @ post)"
    by (rule stringIncludes_iff)
next
  assume "trim q \<noteq> []"
  then show "searchResults (handleSearch H st q)
          = sortFilesByNumber H videoName (searchVideos H (folders st) q)"
    by (simp add: handleSearch_def)
next
  assume a: "consistentComparator (localeCompare H) \<and> trim q \<noteq> []"
  then have r: "searchResults (handleSearch H st q)
          = sortFilesByNumber H videoName (searchVideos H (folders st) q)"
    by (simp add: handleSearch_def)
  show "sorted_wrt (\<lambda>a b. compareNames H (videoName a) (videoName b) \<le> 0)
          (searchResults (handleSearch H st q))"
    unfolding r using a sorted_sortFilesByNumber by blast
  show "mset (searchResults (handleSearch H st q)) = mset (searchVideos H (folders st) q)"
    unfolding r by (simp add: sortFilesByNumber_def)
qed

lemma search_example_keys:
  "extractNumberFromFileName (js ''x2.mp4'') = Finite 2"
  "extractNumberFromFileName (js ''x1.mp4'') = Finite 1"
  by (simp_all add: extract_eval)

text \<open>
  The sequence that \<open>searchVideos\<close> returns for two folders is in pre-order, key 2
  before key 1, and so not in the natural-sort order that C3 states.
\<close>

theorem searchVideos_unsorted_counterexample:
  "searchVideos plainHost
      [sampleFolder (js ''A'') [sampleVideo (js ''x2.mp4'') (js ''A/x2.mp4'')],
       sampleFolder (js ''B'') [sampleVideo (js ''x1.mp4'') (js ''B/x1.mp4'')]] (js ''x'')
     = [sampleVideo (js ''x2.mp4'') (js ''A/x2.mp4''), sampleVideo (js ''x1.mp4'') (js ''B/x1.mp4'')]
   \<and> \<not> sorted_wrt (\<lambda>a b. compareNames plainHost (videoName a) (videoName b) \<le> 0)
        (searchVideos plainHost
          [sampleFolder (js ''A'') [sampleVideo (js ''x2.mp4'') (js ''A/x2.mp4'')],
           sampleFolder (js ''B'') [sampleVideo (js ''x1.mp4'') (js ''B/x1.mp4'')]] (js ''x''))"
proof -
  have a: "searchVideos plainHost
      [sampleFolder (js ''A'') [sampleVideo (js ''x2.mp4'') (js ''A/x2.mp4'')],
       sampleFolder (js ''B'') [sampleVideo (js ''x1.mp4'') (js ''B/x1.mp4'')]] (js ''x'')
     = [sampleVideo (js ''x2.mp4'') (js ''A/x2.mp4''), sampleVideo (js ''x1.mp4'') (js ''B/x1.mp4'')]"
    by (simp add: search_eval)
  have b: "\<not> sorted_wrt (\<lambda>a b. compareNames plainHost (videoName a) (videoName b) \<le> 0)
      [sampleVideo (js ''x2.mp4'') (js ''A/x2.mp4''), sampleVideo (js ''x1.mp4'') (js ''B/x1.mp4'')]"
    by (simp add: sampleVideo_def compareNames_def search_example_keys)
  show ?thesis using a b by (simp only: simp_thms)
qed

theorem searchVideos_matches_witness:
  "consistentComparator (localeCompare plainHost) \<and> trim (js ''X'') \<noteq> []
   \<and> searchResults (handleSearch plainHost
        (initialState\<lparr>folders :=
           [sampleFolder (js ''A'') [sampleVideo (js ''x2.mp4'') (js ''A/x2.mp4'')],
            sampleFolder (js ''B'') [sampleVideo (js ''x1.mp4'') (js ''B/x1.mp4''),
                                     sampleVideo (js ''y3.mp4'') (js ''B/y3.mp4'')]]\<rparr>)
        (js ''X''))
      = [sampleVideo (js ''x1.mp4'') (js ''B/x1.mp4''), sampleVideo (js ''x2.mp4'') (js ''A/x2.mp4'')]
   \<and> sorted_wrt (\<lambda>a b. compareNames plainHost (videoName a) (videoName b) \<le> 0)
        (searchResults (handleSearch plainHost
          (initialState\<lparr>folders :=
             [sampleFolder (js ''A'') [sampleVideo (js ''x2.mp4'') (js ''A/x2.mp4'')],
              sampleFolder (js ''B'') [sampleVideo (js ''x1.mp4'') (js ''B/x1.mp4''),
                                       sampleVideo (js ''y3.mp4'') (js ''B/y3.mp4'')]]\<rparr>)
          (js ''X'')))"
proof -
  let ?fs = "[sampleFolder (js ''A'') [sampleVideo (js ''x2.mp4'') (js ''A/x2.mp4'')],
              sampleFolder (js ''B'') [sampleVideo (js ''x1.mp4'') (js ''B/x1.mp4''),
                                       sampleVideo (js ''y3.mp4'') (js ''B/y3.mp4'')]]"
  let ?st = "initialState\<lparr>folders := ?fs\<rparr>"
  have h1: "consistentComparator (localeCompare plainHost)" by (rule consistent_plainHost)
  have h2: "trim (js ''X'') \<noteq> []" by (simp add: trim_def js_def isWhiteSpace_def)
  note T = searchVideos_matches[where H = plainHost and st = ?st and q = "js ''X''"]
  have sv: "searchVideos plainHost (folders ?st) (js ''X'')
      = [sampleVideo (js ''x2.mp4'') (js ''A/x2.mp4''), sampleVideo (js ''x1.mp4'') (js ''B/x1.mp4'')]"
    by (simp add: search_eval)
  have "searchResults (handleSearch plainHost ?st (js ''X''))
      = sortFilesByNumber plainHost videoName (searchVideos plainHost (folders ?st) (js ''X''))"
    using T[THEN conjunct2, THEN conjunct2, THEN conjunct1, THEN mp, OF h2] .
  also have "\<dots> = [sampleVideo (js ''x1.mp4'') (js ''B/x1.mp4''), sampleVideo (js ''x2.mp4'') (js ''A/x2.mp4'')]"
    unfolding sv
    by (simp add: sortFilesByNumber_def arraySort_def compareNames_def sampleVideo_def search_example_keys)
  finally have c1: "searchResults (handleSearch plainHost ?st (js ''X''))
      = [sampleVideo (js ''x1.mp4'') (js ''B/x1.mp4''), sampleVideo (js ''x2.mp4'') (js ''A/x2.mp4'')]" .
  have c2: "sorted_wrt (\<lambda>a b. compareNames plainHost (videoName a) (videoName b) \<le> 0)
        (searchResults (handleSearch plainHost ?st (js ''X'')))"
    using T[THEN conjunct2, THEN conjunct2, THEN conjunct2, THEN mp, OF conjI[OF h1 h2]]
    by (rule conjunct1)
  show ?thesis using h1 h2 c1 c2 by (simp only: simp_thms)
qed


section \<open>Facts about the snapshot\<close>

lemma simplify_restore_video [simp]: "simplifyVideo (restoreVideo v) = v"
  by (simp add: simplifyVideo_def restoreVideo_def)

lemma simplify_restore_file [simp]: "simplifyFile (restoreFile f) = f"
  by (simp add: simplifyFile_def restoreFile_def)

lemma roundtrip_withoutExpanded:
  "withoutExpanded (simplifyFolder (restoreFolder (simplifyFolder f)))
     = withoutExpanded (simplifyFolder f)"
proof (induction f)
  case (FolderNode n p cs vs fs e)
  have "map (withoutExpanded \<circ> simplifyFolder \<circ> restoreFolder \<circ> simplifyFolder) cs
      = map (withoutExpanded \<circ> simplifyFolder) cs"
    using FolderNode.IH by (intro map_cong) auto
  then show ?case by (simp add: comp_def cong: option.case_cong)
qed

lemma roundtrip_expandedDefined:
  "expandedDefined f \<Longrightarrow> simplifyFolder (restoreFolder (simplifyFolder f)) = simplifyFolder f"
proof (induction f)
  case (FolderNode n p cs vs fs e)
  have "map (simplifyFolder \<circ> restoreFolder \<circ> simplifyFolder) cs = map simplifyFolder cs"
    using FolderNode by (intro map_cong) (auto simp: list_all_iff)
  moreover obtain b where "e = Some b" using FolderNode.prems by auto
  ultimately show ?case by (simp add: comp_def)
qed

text \<open>
  C1. Serializing, restoring and serializing again gives the first snapshot: the same
  names, paths, nesting of children, videos and allFiles entries, in the same order. The
  \<open>isExpanded\<close> flags are the same too wherever the forest defines them, as every forest
  that the program builds or restores does; an undefined flag comes back as \<open>false\<close>.
\<close>

theorem snapshot_roundtrip:
  "map withoutExpanded (simplifyFolderTree (restoreFolderTree (simplifyFolderTree T)))
     = map withoutExpanded (simplifyFolderTree T)
   \<and> (list_all expandedDefined T \<longrightarrow>
        simplifyFolderTree (restoreFolderTree (simplifyFolderTree T)) = simplifyFolderTree T)"
proof (intro conjI impI)
  show "map withoutExpanded (simplifyFolderTree (restoreFolderTree (simplifyFolderTree T)))
     = map withoutExpanded (simplifyFolderTree T)"
    by (simp add: simplifyFolderTree_def restoreFolderTree_def roundtrip_withoutExpanded)
next
  assume "list_all expandedDefined T"
  then show "simplifyFolderTree (restoreFolderTree (simplifyFolderTree T)) = simplifyFolderTree T"
    by (simp add: simplifyFolderTree_def restoreFolderTree_def roundtrip_expandedDefined
        list_all_iff)
qed

theorem snapshot_roundtrip_witness:
  "list_all expandedDefined sampleForest
   \<and> simplifyFolderTree (restoreFolderTree (simplifyFolderTree sampleForest))
       = simplifyFolderTree sampleForest
   \<and> restoreFolderTree (simplifyFolderTree sampleForest) \<noteq> sampleForest"
proof -
  have h: "list_all expandedDefined sampleForest" by (simp add: sampleForest_def)
  have n: "restoreFolderTree (simplifyFolderTree sampleForest) \<noteq> sampleForest"
    by (simp add: sampleForest_def restoreFolderTree_def simplifyFolderTree_def
        restoreVideo_def simplifyVideo_def)
  show ?thesis
    using h n snapshot_roundtrip[of sampleForest, THEN conjunct2, THEN mp, OF h]
    by (simp only: simp_thms)
qed

section \<open>Facts about the cache\<close>

text \<open>
  C9. When the content entry is missing, cannot be parsed, or is older than seven days,
  mounting the component leaves \<open>folders\<close> empty, as it is when nothing was ever
  stored; the same holds when the first entry is missing or cannot be parsed. Whatever
  the \<open>try\<close> block throws is caught, and the function returns \<open>null\<close>.
\<close>

theorem loadFolderFromCache_empty_forest:
  "(folderCache store = None
      \<or> (\<exists>c. folderCache store = Some c \<and> parseInfo J c = None)
      \<or> folderContentCache store = None
      \<or> (\<exists>c. folderContentCache store = Some c \<and> parseContent J c = None)
      \<or> (\<exists>c content t. folderContentCache store = Some c \<and> parseContent J c = Some content
             \<and> contentTimestamp content = Some t \<and> 7 * 24 * 60 * 60 * 1000 < dateNow J - t)
     \<longrightarrow> folders (mountExplorer J store) = []
         \<and> folders (mountExplorer J store)
             = folders (mountExplorer J \<lparr> folderCache = None, folderContentCache = None \<rparr>))
   \<and> (snd (loadBody J store st) = Inl err \<longrightarrow>
         loadFolderFromCache J store st = (fst (loadBody J store st), Null)
         \<and> folders (fst (loadBody J store st)) = folders st)"
proof (intro conjI impI)
  assume a: "folderCache store = None
      \<or> (\<exists>c. folderCache store = Some c \<and> parseInfo J c = None)
      \<or> folderContentCache store = None
      \<or> (\<exists>c. folderContentCache store = Some c \<and> parseContent J c = None)
      \<or> (\<exists>c content t. folderContentCache store = Some c \<and> parseContent J c = Some content
             \<and> contentTimestamp content = Some t \<and> 7 * 24 * 60 * 60 * 1000 < dateNow J - t)"
  then show e: "folders (mountExplorer J store) = []"
    by (auto simp: mountExplorer_def loadFolderFromCache_def loadBody_def initialState_def Let_def
        split: option.splits)
  show "folders (mountExplorer J store)
             = folders (mountExplorer J \<lparr> folderCache = None, folderContentCache = None \<rparr>)"
    unfolding e
    by (simp add: mountExplorer_def loadFolderFromCache_def loadBody_def initialState_def)
next
  assume b: "snd (loadBody J store st) = Inl err"
  then show "loadFolderFromCache J store st = (fst (loadBody J store st), Null)"
    by (cases "loadBody J store st") (simp add: loadFolderFromCache_def)
  from b show "folders (fst (loadBody J store st)) = folders st"
    by (auto simp: loadBody_def Let_def split: option.splits if_splits)
qed


theorem loadFolderFromCache_empty_forest_witness:
  "folderContentCache sampleStorage = Some (js ''c'')
   \<and> parseContent expiredJson (js ''c'') = Some sampleContent
   \<and> contentTimestamp sampleContent = Some 0
   \<and> 7 * 24 * 60 * 60 * 1000 < dateNow expiredJson - 0
   \<and> folders (mountExplorer expiredJson sampleStorage) = []
   \<and> snd (loadBody corruptJson sampleStorage initialState) = Inl SyntaxError
   \<and> loadFolderFromCache corruptJson sampleStorage initialState
       = (fst (loadBody corruptJson sampleStorage initialState), Null)
   \<and> folders (mountExplorer freshJson sampleStorage) = restoreFolderTree (simplifyFolderTree sampleForest)"
proof -
  have h1: "folderContentCache sampleStorage = Some (js ''c'')" by (simp add: sampleStorage_def)
  have h2: "parseContent expiredJson (js ''c'') = Some sampleContent" by (simp add: expiredJson_def)
  have h3: "contentTimestamp sampleContent = Some 0" by (simp add: sampleContent_def)
  have h4: "7 * 24 * 60 * 60 * 1000 < dateNow expiredJson - 0" by (simp add: expiredJson_def)
  have hyp: "folderCache sampleStorage = None
      \<or> (\<exists>c. folderCache sampleStorage = Some c \<and> parseInfo expiredJson c = None)
      \<or> folderContentCache sampleStorage = None
      \<or> (\<exists>c. folderContentCache sampleStorage = Some c \<and> parseContent expiredJson c = None)
      \<or> (\<exists>c content t. folderContentCache sampleStorage = Some c
             \<and> parseContent expiredJson c = Some content
             \<and> contentTimestamp content = Some t
             \<and> 7 * 24 * 60 * 60 * 1000 < dateNow expiredJson - t)"
    using h1 h2 h3 h4 by blast
  have c1: "folders (mountExplorer expiredJson sampleStorage) = []"
    using loadFolderFromCache_empty_forest[where J = expiredJson and store = sampleStorage,
        THEN conjunct1, THEN mp, OF hyp] by (rule conjunct1)
  have h5: "snd (loadBody corruptJson sampleStorage initialState) = Inl SyntaxError"
    by (simp add: loadBody_def corruptJson_def sampleStorage_def js_def)
  have c2: "loadFolderFromCache corruptJson sampleStorage initialState
       = (fst (loadBody corruptJson sampleStorage initialState), Null)"
    using loadFolderFromCache_empty_forest[where J = corruptJson and store = sampleStorage
        and st = initialState and err = SyntaxError, THEN conjunct2, THEN mp, OF h5]
    by (rule conjunct1)
  have c3: "folders (mountExplorer freshJson sampleStorage)
      = restoreFolderTree (simplifyFolderTree sampleForest)"
    by (simp add: mountExplorer_def loadFolderFromCache_def loadBody_def freshJson_def
        sampleStorage_def sampleContent_def js_def)
  show ?thesis using h1 h2 h3 h4 c1 h5 c2 c3 by (simp only: simp_thms)
qed

section \<open>Facts about the heap of folders\<close>

lemma heapInv_empty: "heapInv emptyBuild"
  by (simp add: heapInv_def mapInv_def linkInv_def fileInv_def emptyBuild_def links_def)

lemma mset_children_update:
  "p < length h \<Longrightarrow>
   mset (concat (map objChildren (h[p := (h ! p)\<lparr>objChildren := objChildren (h ! p) @ [a]\<rparr>])))
     = add_mset a (mset (concat (map objChildren h)))"
  by (induction h arbitrary: p) (auto split: nat.splits)

lemma mset_children_files_update:
  "mset (concat (map objChildren (h[p := pushFile f (h ! p)])))
     = mset (concat (map objChildren h))"
proof (cases "p < length h")
  case True
  then have "map objChildren (h[p := pushFile f (h ! p)]) = map objChildren h"
    by (intro nth_equalityI) (auto simp: nth_list_update pushFile_def)
  then show ?thesis by simp
qed (simp add: list_update_beyond)

lemma mapInv_alloc:
  assumes m: "mapInv s" and fresh: "folderMap s p = None" and obj: "objPath obj = p"
    and h': "heap s' = heap s @ [obj]" and m': "folderMap s' = (folderMap s)(p \<mapsto> length (heap s))"
  shows "mapInv s'"
proof -
  have A: "\<And>q a. folderMap s q = Some a \<Longrightarrow> a < length (heap s) \<and> objPath (heap s ! a) = q"
    and B: "\<And>a. a < length (heap s) \<Longrightarrow> folderMap s (objPath (heap s ! a)) = Some a"
    using m unfolding mapInv_def by blast+
  have nop: "objPath (heap s ! a) \<noteq> p" if "a < length (heap s)" for a
  proof
    assume "objPath (heap s ! a) = p"
    then have "folderMap s p = Some a" using B[OF that] by simp
    then show False using fresh by simp
  qed
  show ?thesis
    unfolding mapInv_def
  proof (intro conjI allI impI)
    fix q a assume "folderMap s' q = Some a"
    then have "(q = p \<and> a = length (heap s)) \<or> (q \<noteq> p \<and> folderMap s q = Some a)"
      unfolding m' by (auto split: if_splits)
    then consider "q = p \<and> a = length (heap s)" | "q \<noteq> p \<and> folderMap s q = Some a"
      by blast
    then have "a < length (heap s') \<and> objPath (heap s' ! a) = q"
    proof cases
      case 1
      then show ?thesis using obj by (simp add: h')
    next
      case 2
      then have "a < length (heap s) \<and> objPath (heap s ! a) = q" using A by blast
      then show ?thesis by (simp add: h' nth_append)
    qed
    then show "a < length (heap s')" "objPath (heap s' ! a) = q" by simp_all
  next
    fix a assume "a < length (heap s')"
    then consider "a < length (heap s)" | "a = length (heap s)" unfolding h' by fastforce
    then show "folderMap s' (objPath (heap s' ! a)) = Some a"
    proof cases
      case 1
      then show ?thesis using B[OF 1] nop[OF 1] by (simp add: h' m' nth_append)
    next
      case 2
      then show ?thesis using obj by (simp add: h' m')
    qed
  qed
qed

lemma fileInv_alloc:
  assumes f: "fileInv s" and obj: "objVideos obj = []" "objAllFiles obj = []"
    and h': "heap s' = heap s @ [obj]"
  shows "fileInv s'"
  unfolding fileInv_def
proof (intro allI impI)
  fix a assume "a < length (heap s')"
  then consider "a < length (heap s)" | "a = length (heap s)" unfolding h' by fastforce
  then show "(\<forall>f\<in>set (objAllFiles (heap s' ! a)). folderPathOf f = objPath (heap s' ! a))
        \<and> objVideos (heap s' ! a) = map toVideoFile (filter isVideo (objAllFiles (heap s' ! a)))"
  proof cases
    case 1
    then show ?thesis using f unfolding fileInv_def by (simp add: h' nth_append)
  next
    case 2
    then show ?thesis using obj by (simp add: h')
  qed
qed

text \<open>Allocation of a new folder object, linked as a root.\<close>

lemma heapInv_new_root:
  assumes inv: "heapInv s" and fresh: "folderMap s p = None"
    and obj: "objPath obj = p" "objChildren obj = []" "objVideos obj = []" "objAllFiles obj = []"
  shows "heapInv (s\<lparr> heap := heap s @ [obj], folderMap := (folderMap s)(p \<mapsto> length (heap s)),
                     rootFolders := rootFolders s @ [length (heap s)] \<rparr>)"
proof -
  let ?s' = "s\<lparr> heap := heap s @ [obj], folderMap := (folderMap s)(p \<mapsto> length (heap s)),
                     rootFolders := rootFolders s @ [length (heap s)] \<rparr>"
  have m: "mapInv s" and l: "linkInv s" and f: "fileInv s" using inv by (auto simp: heapInv_def)
  have "mapInv ?s'" by (rule mapInv_alloc[OF m fresh obj(1)]) simp_all
  moreover have "fileInv ?s'" by (rule fileInv_alloc[OF f obj(3,4)]) simp
  moreover have "linkInv ?s'"
    unfolding linkInv_def
  proof (intro conjI allI impI ballI)
    fix a c assume "a < length (heap ?s')" "c \<in> set (objChildren (heap ?s' ! a))"
    then have "a < length (heap s) \<and> c \<in> set (objChildren (heap s ! a))"
      using obj(2) by (cases "a < length (heap s)") (auto simp: nth_append less_Suc_eq)
    then have "a < c \<and> c < length (heap s)" using l unfolding linkInv_def by blast
    then show "a < c" "c < length (heap ?s')" by simp_all
  next
    show "mset (links ?s') = mset [0..<length (heap ?s')]"
      using l obj(2) by (simp add: linkInv_def links_def)
  qed
  ultimately show ?thesis by (simp add: heapInv_def)
qed

lemma nth_pushChild:
  assumes "parent < length (heap s)" "a < length (heap s)"
  shows "heap (pushChild parent c s) ! a =
      (if a = parent then (heap s ! parent)\<lparr>objChildren := objChildren (heap s ! parent) @ [c]\<rparr>
       else heap s ! a)"
  using assms by (simp add: pushChild_def nth_list_update)

lemma pushChild_simps [simp]:
  "length (heap (pushChild parent c s)) = length (heap s)"
  "folderMap (pushChild parent c s) = folderMap s"
  "rootFolders (pushChild parent c s) = rootFolders s"
  by (simp_all add: pushChild_def)

lemma mapInv_pushChild:
  assumes m: "mapInv s" and parent: "parent < length (heap s)"
  shows "mapInv (pushChild parent c s)"
proof -
  have pth: "objPath (heap (pushChild parent c s) ! b) = objPath (heap s ! b)"
    if "b < length (heap s)" for b
    by (simp add: nth_pushChild[OF parent that])
  show ?thesis
    unfolding mapInv_def
  proof (intro conjI allI impI)
    fix q b assume "folderMap (pushChild parent c s) q = Some b"
    then have "b < length (heap s) \<and> objPath (heap s ! b) = q"
      using m unfolding mapInv_def by simp
    then show "b < length (heap (pushChild parent c s))"
      "objPath (heap (pushChild parent c s) ! b) = q"
      using pth by simp_all
  next
    fix b assume "b < length (heap (pushChild parent c s))"
    then have b: "b < length (heap s)" by simp
    then have "folderMap s (objPath (heap s ! b)) = Some b" using m unfolding mapInv_def by blast
    then show "folderMap (pushChild parent c s) (objPath (heap (pushChild parent c s) ! b)) = Some b"
      using pth[OF b] by simp
  qed
qed

lemma fileInv_pushChild:
  assumes f: "fileInv s" and parent: "parent < length (heap s)"
  shows "fileInv (pushChild parent c s)"
  unfolding fileInv_def
proof (intro allI impI)
  fix b assume "b < length (heap (pushChild parent c s))"
  then have b: "b < length (heap s)" by simp
  have old: "(\<forall>g\<in>set (objAllFiles (heap s ! b)). folderPathOf g = objPath (heap s ! b))
      \<and> objVideos (heap s ! b) = map toVideoFile (filter isVideo (objAllFiles (heap s ! b)))"
    using f b unfolding fileInv_def by blast
  have "objAllFiles (heap (pushChild parent c s) ! b) = objAllFiles (heap s ! b)"
    "objVideos (heap (pushChild parent c s) ! b) = objVideos (heap s ! b)"
    "objPath (heap (pushChild parent c s) ! b) = objPath (heap s ! b)"
    by (simp_all add: nth_pushChild[OF parent b])
  with old show "(\<forall>g\<in>set (objAllFiles (heap (pushChild parent c s) ! b)).
          folderPathOf g = objPath (heap (pushChild parent c s) ! b))
      \<and> objVideos (heap (pushChild parent c s) ! b)
          = map toVideoFile (filter isVideo (objAllFiles (heap (pushChild parent c s) ! b)))"
    by simp
qed

text \<open>Allocation of a new folder object, pushed to the children of an older one.\<close>

lemma heapInv_new_child:
  assumes inv: "heapInv s" and fresh: "folderMap s p = None" and parent: "parent < length (heap s)"
    and obj: "objPath obj = p" "objChildren obj = []" "objVideos obj = []" "objAllFiles obj = []"
  shows "heapInv (pushChild parent (length (heap s))
           (s\<lparr> heap := heap s @ [obj], folderMap := (folderMap s)(p \<mapsto> length (heap s)) \<rparr>))"
proof -
  let ?a = "length (heap s)"
  let ?s1 = "s\<lparr> heap := heap s @ [obj], folderMap := (folderMap s)(p \<mapsto> ?a) \<rparr>"
  let ?s' = "pushChild parent ?a ?s1"
  have m: "mapInv s" and l: "linkInv s" and f: "fileInv s" using inv by (auto simp: heapInv_def)
  have p1: "parent < length (heap ?s1)" using parent by simp
  have m1: "mapInv ?s1" by (rule mapInv_alloc[OF m fresh obj(1)]) simp_all
  have f1: "fileInv ?s1" by (rule fileInv_alloc[OF f obj(3,4)]) simp
  have "mapInv ?s'" by (rule mapInv_pushChild[OF m1 p1])
  moreover have "fileInv ?s'" by (rule fileInv_pushChild[OF f1 p1])
  moreover have "linkInv ?s'"
    unfolding linkInv_def
  proof (intro conjI allI impI ballI)
    fix a c assume a: "a < length (heap ?s')" and c: "c \<in> set (objChildren (heap ?s' ! a))"
    from a have a1: "a < length (heap ?s1)" by simp
    have old: "\<And>b d. b < ?a \<Longrightarrow> d \<in> set (objChildren (heap s ! b)) \<Longrightarrow> b < d \<and> d < ?a"
      using l unfolding linkInv_def by blast
    have nthP: "heap ?s' ! a =
        (if a = parent
         then (heap ?s1 ! parent)\<lparr>objChildren := objChildren (heap ?s1 ! parent) @ [?a]\<rparr>
         else heap ?s1 ! a)"
      by (rule nth_pushChild[OF p1 a1])
    have s1p: "heap ?s1 ! parent = heap s ! parent" using parent by (simp add: nth_append)
    have "a < c \<and> c < Suc ?a"
    proof (cases "a = parent")
      case True
      then have "c \<in> set (objChildren (heap s ! parent) @ [?a])"
        using c unfolding nthP s1p by simp
      then have "c \<in> set (objChildren (heap s ! parent)) \<or> c = ?a" by auto
      then show ?thesis using old[OF parent] parent True by fastforce
    next
      case False
      then have cc: "c \<in> set (objChildren (heap ?s1 ! a))" using c unfolding nthP by simp
      show ?thesis
      proof (cases "a < ?a")
        case True
        then have "c \<in> set (objChildren (heap s ! a))" using cc by (simp add: nth_append)
        then show ?thesis using old[OF True] by fastforce
      next
        case False
        then have "a = ?a" using a by simp
        then have "c \<in> set (objChildren obj)" using cc by simp
        then show ?thesis using obj(2) by simp
      qed
    qed
    then show "a < c" "c < length (heap ?s')" by simp_all
  next
    have "heap ?s' = (heap ?s1)[parent := (heap ?s1 ! parent)\<lparr>objChildren := objChildren (heap ?s1 ! parent) @ [?a]\<rparr>]"
      by (simp add: pushChild_def)
    then have "mset (concat (map objChildren (heap ?s')))
        = add_mset ?a (mset (concat (map objChildren (heap ?s1))))"
      using mset_children_update[OF p1] by simp
    then have "mset (links ?s') = add_mset ?a (mset (links s))"
      using obj(2) by (simp add: links_def)
    then show "mset (links ?s') = mset [0..<length (heap ?s')]"
      using l by (simp add: linkInv_def)
  qed
  ultimately show ?thesis by (simp add: heapInv_def)
qed

lemma nth_addFile:
  assumes "b < length (heap s)"
  shows "heap (addFile a f s) ! b = (if b = a then pushFile f (heap s ! a) else heap s ! b)"
  using assms by (simp add: addFile_def nth_list_update)

lemma addFile_simps [simp]:
  "length (heap (addFile a f s)) = length (heap s)"
  "folderMap (addFile a f s) = folderMap s"
  "rootFolders (addFile a f s) = rootFolders s"
  by (simp_all add: addFile_def)

lemma pushFile_simps [simp]:
  "objPath (pushFile f obj) = objPath obj"
  "objName (pushFile f obj) = objName obj"
  "objChildren (pushFile f obj) = objChildren obj"
  "objIsExpanded (pushFile f obj) = objIsExpanded obj"
  "objAllFiles (pushFile f obj) = objAllFiles obj @ [f]"
  "objVideos (pushFile f obj) = (if isVideo f then objVideos obj @ [toVideoFile f] else objVideos obj)"
  by (simp_all add: pushFile_def)

lemma heapInv_addFile:
  assumes inv: "heapInv s" and a: "a < length (heap s)" and p: "objPath (heap s ! a) = folderPathOf f"
  shows "heapInv (addFile a f s)"
proof -
  have m: "mapInv s" and l: "linkInv s" and fi: "fileInv s" using inv by (auto simp: heapInv_def)
  have pth: "objPath (heap (addFile a f s) ! b) = objPath (heap s ! b)"
    if "b < length (heap s)" for b
    by (simp add: nth_addFile[OF that])
  have "mapInv (addFile a f s)"
    unfolding mapInv_def
  proof (intro conjI allI impI)
    fix q b assume "folderMap (addFile a f s) q = Some b"
    then have "b < length (heap s) \<and> objPath (heap s ! b) = q"
      using m unfolding mapInv_def by simp
    then show "b < length (heap (addFile a f s))" "objPath (heap (addFile a f s) ! b) = q"
      using pth by simp_all
  next
    fix b assume "b < length (heap (addFile a f s))"
    then have b: "b < length (heap s)" by simp
    then have "folderMap s (objPath (heap s ! b)) = Some b" using m unfolding mapInv_def by blast
    then show "folderMap (addFile a f s) (objPath (heap (addFile a f s) ! b)) = Some b"
      using pth[OF b] by simp
  qed
  moreover have "linkInv (addFile a f s)"
  proof -
    have "mset (links (addFile a f s)) = mset (links s)"
      by (simp add: links_def addFile_def mset_children_files_update)
    then have ms: "mset (links (addFile a f s)) = mset [0..<length (heap (addFile a f s))]"
      using l unfolding linkInv_def by simp
    have ch: "objChildren (heap (addFile a f s) ! b) = objChildren (heap s ! b)"
      if "b < length (heap s)" for b
      by (simp add: nth_addFile[OF that])
    have "\<forall>b<length (heap (addFile a f s)).
            \<forall>c\<in>set (objChildren (heap (addFile a f s) ! b)).
              b < c \<and> c < length (heap (addFile a f s))"
    proof (intro allI impI ballI)
      fix b c assume "b < length (heap (addFile a f s))"
        and c: "c \<in> set (objChildren (heap (addFile a f s) ! b))"
      then have b: "b < length (heap s)" by simp
      from c have "c \<in> set (objChildren (heap s ! b))" unfolding ch[OF b] .
      then have "b < c \<and> c < length (heap s)" using l b unfolding linkInv_def by blast
      then show "b < c \<and> c < length (heap (addFile a f s))" by simp
    qed
    with ms show ?thesis unfolding linkInv_def by blast
  qed
  moreover have "fileInv (addFile a f s)"
    unfolding fileInv_def
  proof (intro allI impI)
    fix b assume "b < length (heap (addFile a f s))"
    then have b: "b < length (heap s)" by simp
    have old: "(\<forall>g\<in>set (objAllFiles (heap s ! b)). folderPathOf g = objPath (heap s ! b))
        \<and> objVideos (heap s ! b) = map toVideoFile (filter isVideo (objAllFiles (heap s ! b)))"
      using fi b unfolding fileInv_def by blast
    have nb: "heap (addFile a f s) ! b = (if b = a then pushFile f (heap s ! a) else heap s ! b)"
      by (rule nth_addFile[OF b])
    show "(\<forall>g\<in>set (objAllFiles (heap (addFile a f s) ! b)).
            folderPathOf g = objPath (heap (addFile a f s) ! b))
        \<and> objVideos (heap (addFile a f s) ! b)
            = map toVideoFile (filter isVideo (objAllFiles (heap (addFile a f s) ! b)))"
    proof (cases "b = a")
      case True
      then show ?thesis using old p unfolding nb by auto
    next
      case False
      then show ?thesis using old unfolding nb by simp
    qed
  qed
  ultimately show ?thesis by (simp add: heapInv_def)
qed

lemma getRootFolder_inv:
  assumes inv: "heapInv s" and g: "getRootFolder s = (a, s')"
  shows "heapInv s' \<and> a < length (heap s') \<and> objPath (heap s' ! a) = [] \<and> folderMap s' [] = Some a"
proof (cases "folderMap s []")
  case (Some b)
  then have e: "a = b" "s' = s" using g by (simp_all add: getRootFolder_def)
  have "mapInv s" using inv by (simp add: heapInv_def)
  then have "b < length (heap s) \<and> objPath (heap s ! b) = []"
    using Some unfolding mapInv_def by blast
  then show ?thesis using inv Some e by simp
next
  case None
  let ?obj = "\<lparr> objName = rootName, objPath = [], objChildren = [], objVideos = [],
                objAllFiles = [], objIsExpanded = True \<rparr>"
  have e: "a = length (heap s)"
    "s' = s\<lparr> heap := heap s @ [?obj], folderMap := (folderMap s)([] \<mapsto> length (heap s)),
              rootFolders := rootFolders s @ [length (heap s)] \<rparr>"
    using g None by (auto simp: getRootFolder_def Let_def)
  have "heapInv s'" unfolding e(2) by (rule heapInv_new_root[OF inv None]) simp_all
  then show ?thesis by (simp add: e)
qed

lemma walkStep_ok:
  assumes ok: "walkOk (pp, cp, s)"
  shows "\<exists>a s'. walkStep (pp, cp, s) seg = (nextPath pp seg, Some a, s')
           \<and> walkOk (nextPath pp seg, Some a, s')"
proof -
  let ?cur = "nextPath pp seg"
  have inv: "heapInv s" using ok by (simp add: walkOk_def)
  have m: "mapInv s" using inv by (simp add: heapInv_def)
  show ?thesis
  proof (cases "folderMap s ?cur")
    case (Some b)
    then have "walkStep (pp, cp, s) seg = (?cur, Some b, s)"
      by (simp add: walkStep_def Let_def)
    moreover have "walkOk (?cur, Some b, s)" using inv Some by (simp add: walkOk_def)
    ultimately show ?thesis by blast
  next
    case None
    let ?a = "length (heap s)"
    let ?obj = "\<lparr> objName = seg, objPath = ?cur, objChildren = [], objVideos = [],
                  objAllFiles = [], objIsExpanded = False \<rparr>"
    let ?s1 = "s\<lparr> heap := heap s @ [?obj], folderMap := (folderMap s)(?cur \<mapsto> ?a) \<rparr>"
    show ?thesis
    proof (cases cp)
      case cpNone: None
      then have pp: "pp = []" using ok by (simp add: walkOk_def)
      let ?s' = "?s1\<lparr> rootFolders := rootFolders ?s1 @ [?a] \<rparr>"
      have w: "walkStep (pp, cp, s) seg = (?cur, Some ?a, ?s')"
        using None cpNone pp by (simp add: walkStep_def Let_def)
      have "?s' = s\<lparr> heap := heap s @ [?obj], folderMap := (folderMap s)(?cur \<mapsto> ?a),
                      rootFolders := rootFolders s @ [?a] \<rparr>" by simp
      then have "heapInv ?s'"
        using heapInv_new_root[OF inv None, of ?obj] by simp
      then have "walkOk (?cur, Some ?a, ?s')" by (simp add: walkOk_def)
      with w show ?thesis by blast
    next
      case (Some parent)
      then have "folderMap s pp = Some parent" using ok by (simp add: walkOk_def)
      then have parent: "parent < length (heap s)" using m unfolding mapInv_def by blast
      let ?s' = "pushChild parent ?a ?s1"
      have w: "walkStep (pp, cp, s) seg = (?cur, Some ?a, ?s')"
        using None Some by (simp add: walkStep_def Let_def)
      have "heapInv ?s'"
        by (rule heapInv_new_child[OF inv None parent]) simp_all
      then have "walkOk (?cur, Some ?a, ?s')" by (simp add: walkOk_def)
      with w show ?thesis by blast
    qed
  qed
qed

lemma walk_ok:
  assumes "walkOk (pp, cp, s)" "segs \<noteq> []"
  shows "\<exists>a s'. foldl walkStep (pp, cp, s) segs = (foldl nextPath pp segs, Some a, s')
           \<and> walkOk (foldl nextPath pp segs, Some a, s')"
  using assms
proof (induction segs arbitrary: pp cp s)
  case Nil
  then show ?case by simp
next
  case (Cons seg segs)
  obtain a s' where w: "walkStep (pp, cp, s) seg = (nextPath pp seg, Some a, s')"
    and ok': "walkOk (nextPath pp seg, Some a, s')"
    using walkStep_ok[OF Cons.prems(1)] by blast
  show ?case
  proof (cases "segs = []")
    case True
    then show ?thesis using w ok' by simp
  next
    case False
    from Cons.IH[OF ok' False] show ?thesis using w by simp
  qed
qed

lemma placeFile_inv:
  assumes inv: "heapInv s"
  shows "heapInv (placeFile s f)"
proof (cases "pathParts f = []")
  case True
  obtain a s1 where g: "getRootFolder s = (a, s1)" by (cases "getRootFolder s")
  from getRootFolder_inv[OF inv g]
  have i1: "heapInv s1" and a: "a < length (heap s1)" and p: "objPath (heap s1 ! a) = []" by auto
  have "folderPathOf f = []" using True by (simp add: folderPathOf_def)
  then have "heapInv (addFile a f s1)" using heapInv_addFile[OF i1 a] p by simp
  moreover have "placeFile s f = addFile a f s1"
    using True g by (simp add: placeFile_def pathParts_def)
  ultimately show ?thesis by simp
next
  case False
  have ok: "walkOk ([], None, s)" using inv by (simp add: walkOk_def)
  obtain a s1 where w: "foldl walkStep ([], None, s) (pathParts f) = (folderPathOf f, Some a, s1)"
    and ok1: "walkOk (folderPathOf f, Some a, s1)"
    using walk_ok[OF ok False] unfolding folderPathOf_def by blast
  have i1: "heapInv s1" and fm: "folderMap s1 (folderPathOf f) = Some a"
    using ok1 by (simp_all add: walkOk_def)
  have "mapInv s1" using i1 by (simp add: heapInv_def)
  then have a: "a < length (heap s1)" and p: "objPath (heap s1 ! a) = folderPathOf f"
    using fm unfolding mapInv_def by blast+
  have "heapInv (addFile a f s1)" by (rule heapInv_addFile[OF i1 a p])
  moreover have "placeFile s f = addFile a f s1"
    using False w by (simp add: placeFile_def pathParts_def[symmetric])
  ultimately show ?thesis by simp
qed

lemma foldl_placeFile_inv: "heapInv s \<Longrightarrow> heapInv (foldl placeFile s items)"
  by (induction items arbitrary: s) (simp_all add: placeFile_inv)

lemma buildHeap_inv: "heapInv (buildHeap H files)"
  unfolding buildHeap_def by (rule foldl_placeFile_inv[OF heapInv_empty])

section \<open>Facts about paths\<close>

lemma splitOn_nonempty [simp]: "splitOn sep s \<noteq> []"
  by (induction s) auto

lemma foldl_nextPath_nonempty:
  "acc \<noteq> [] \<Longrightarrow> foldl nextPath acc segs = acc @ concat (map (\<lambda>s. slash # s) segs)"
  by (induction segs arbitrary: acc) (auto simp: nextPath_def)

lemma joinPath_Cons: "joinPath (x # r) = x @ concat (map (\<lambda>s. slash # s) r)"
  by (induction r arbitrary: x) auto

lemma foldl_nextPath_join:
  assumes "segs = [] \<or> hd segs \<noteq> []"
  shows "foldl nextPath [] segs = joinPath segs"
proof (cases segs)
  case Nil then show ?thesis by simp
next
  case (Cons x r)
  then have "x \<noteq> []" using assms by simp
  then show ?thesis
    using Cons by (simp add: nextPath_def foldl_nextPath_nonempty joinPath_Cons)
qed

lemma hd_splitOn_relative:
  assumes "relativePath p" "butlast (splitOn slash p) \<noteq> []"
  shows "hd (butlast (splitOn slash p)) \<noteq> []"
proof (cases p)
  case Nil
  then show ?thesis using assms by simp
next
  case (Cons c s)
  then have c: "c \<noteq> slash" using assms(1) by (simp add: relativePath_def)
  then have sp: "splitOn slash p = (c # hd (splitOn slash s)) # tl (splitOn slash s)"
    using Cons by simp
  then have "tl (splitOn slash s) \<noteq> []" using assms(2) by auto
  then show ?thesis using sp by simp
qed

lemma folderPathOf_relative:
  assumes "relativePath (itemPath f)"
  shows "folderPathOf f = parentPathOf (itemPath f)"
  unfolding folderPathOf_def parentPathOf_def pathParts_def
  using hd_splitOn_relative[OF assms] by (intro foldl_nextPath_join) blast

section \<open>Facts about reading the heap\<close>

lemma those_map_total:
  assumes "\<And>x. x \<in> set xs \<Longrightarrow> \<exists>y. f x = Some y"
  shows "\<exists>ys. those (map f xs) = Some ys"
  using assms by (induction xs) fastforce+

lemma those_map_Some:
  "those (map f xs) = Some ys \<Longrightarrow> length ys = length xs \<and> (\<forall>i<length xs. f (xs ! i) = Some (ys ! i))"
proof (induction xs arbitrary: ys)
  case Nil then show ?case by simp
next
  case (Cons x xs)
  from Cons.prems obtain y ys' where y: "f x = Some y" "those (map f xs) = Some ys'" "ys = y # ys'"
    by (auto split: option.splits)
  from Cons.IH[OF y(2)] have "length ys' = length xs" "\<forall>i<length xs. f (xs ! i) = Some (ys' ! i)"
    by auto
  then show ?case using y by (auto simp: nth_Cons split: nat.splits)
qed

lemma readNode_total:
  assumes l: "linkInv s"
  shows "a < length (heap s) \<Longrightarrow> length (heap s) \<le> n + a \<Longrightarrow> \<exists>t. readNode n (heap s) a = Some t"
proof (induction n arbitrary: a)
  case 0 then show ?case by simp
next
  case (Suc n)
  have "\<exists>t. readNode n (heap s) c = Some t" if "c \<in> set (objChildren (heap s ! a))" for c
  proof -
    have "a < c \<and> c < length (heap s)" using l Suc.prems(1) that unfolding linkInv_def by blast
    then show ?thesis using Suc.IH[of c] Suc.prems(2) by simp
  qed
  then obtain cs where "those (map (readNode n (heap s)) (objChildren (heap s ! a))) = Some cs"
    using those_map_total by blast
  then show ?case using Suc.prems(1) by simp
qed

lemma readNode_nodes:
  "readNode n h a = Some t \<Longrightarrow> t' \<in> set (allNodes t) \<Longrightarrow> \<exists>b<length h. nodeOf (h ! b) t'"
proof (induction n arbitrary: a t)
  case 0 then show ?case by simp
next
  case (Suc n)
  from Suc.prems(1) obtain cs where a: "a < length h"
    and cs: "those (map (readNode n h) (objChildren (h ! a))) = Some cs"
    and t: "t = FolderNode (objName (h ! a)) (objPath (h ! a)) cs (objVideos (h ! a))
                 (Some (objAllFiles (h ! a))) (Some (objIsExpanded (h ! a)))"
    by (auto split: if_splits option.splits)
  from Suc.prems(2) consider "t' = t" | c where "c \<in> set cs" "t' \<in> set (allNodes c)"
    unfolding t by auto
  then show ?case
  proof cases
    case 1
    then show ?thesis using a t by (auto simp: nodeOf_def)
  next
    case 2
    then obtain i where i: "i < length cs" "cs ! i = c" by (auto simp: in_set_conv_nth)
    from those_map_Some[OF cs] i have "readNode n h (objChildren (h ! a) ! i) = Some c" by auto
    from Suc.IH[OF this 2(2)] show ?thesis .
  qed
qed

section \<open>Facts about sortFolderContents\<close>

lemma sortFolderContents_nodes:
  "t' \<in> set (allNodes (sortFolderContents H t)) \<Longrightarrow>
   \<exists>t0\<in>set (allNodes t). name t' = name t0 \<and> path t' = path t0 \<and> isExpanded t' = isExpanded t0
      \<and> videos t' = sortFilesByNumber H videoName (videos t0)
      \<and> allFiles t' = map_option (sortFilesByNumber H itemName) (allFiles t0)"
proof (induction H t arbitrary: t' rule: sortFolderContents.induct)
  case (1 H n p cs vs fs e)
  let ?t = "FolderNode n p cs vs fs e"
  from "1.prems" consider "t' = sortFolderContents H ?t"
    | c where "c \<in> set (sortFilesByNumber H name cs)" "t' \<in> set (allNodes (sortFolderContents H c))"
    by auto
  then show ?case
  proof cases
    case 1
    then show ?thesis by simp
  next
    case 2
    from "1.IH"[OF 2(1) 2(2)] obtain t0 where "t0 \<in> set (allNodes c)"
      "name t' = name t0 \<and> path t' = path t0 \<and> isExpanded t' = isExpanded t0
      \<and> videos t' = sortFilesByNumber H videoName (videos t0)
      \<and> allFiles t' = map_option (sortFilesByNumber H itemName) (allFiles t0)" by blast
    moreover have "c \<in> set cs" using 2(1) by simp
    ultimately show ?thesis by auto
  qed
qed

text \<open>The forest that the function returns, and where its nodes come from.\<close>

lemma build_total:
  "\<exists>roots. those (map (readNode (length (heap (buildHeap H files))) (heap (buildHeap H files)))
              (rootFolders (buildHeap H files))) = Some roots
     \<and> buildCompleteFolderTree H files
         = Some (sortFilesByNumber H name (map (sortFolderContents H) roots))"
proof -
  let ?s = "buildHeap H files"
  have inv: "heapInv ?s" by (rule buildHeap_inv)
  then have l: "linkInv ?s" by (simp add: heapInv_def)
  have "a < length (heap ?s)" if "a \<in> set (rootFolders ?s)" for a
  proof -
    have "a \<in># mset (links ?s)" using that by (simp add: links_def)
    then have "a \<in> set [0..<length (heap ?s)]" using l unfolding linkInv_def by (metis set_mset_mset)
    then show ?thesis by simp
  qed
  then have "\<exists>t. readNode (length (heap ?s)) (heap ?s) a = Some t" if "a \<in> set (rootFolders ?s)" for a
    using readNode_total[OF l] that by simp
  then obtain roots where
    "those (map (readNode (length (heap ?s)) (heap ?s)) (rootFolders ?s)) = Some roots"
    using those_map_total by blast
  then show ?thesis by (auto simp: buildCompleteFolderTree_def Let_def)
qed

lemma build_nodes:
  assumes "buildCompleteFolderTree H files = Some forest" "node \<in> set (forestNodes forest)"
  shows "\<exists>b<length (heap (buildHeap H files)).
           name node = objName (heap (buildHeap H files) ! b)
         \<and> path node = objPath (heap (buildHeap H files) ! b)
         \<and> isExpanded node = Some (objIsExpanded (heap (buildHeap H files) ! b))
         \<and> videos node = sortFilesByNumber H videoName (objVideos (heap (buildHeap H files) ! b))
         \<and> allFiles node = Some (sortFilesByNumber H itemName (objAllFiles (heap (buildHeap H files) ! b)))"
proof -
  let ?s = "buildHeap H files"
  obtain roots where r: "those (map (readNode (length (heap ?s)) (heap ?s)) (rootFolders ?s)) = Some roots"
    and b: "buildCompleteFolderTree H files = Some (sortFilesByNumber H name (map (sortFolderContents H) roots))"
    using build_total by blast
  then have forest: "forest = sortFilesByNumber H name (map (sortFolderContents H) roots)"
    using assms(1) by simp
  from assms(2) obtain rt where rt: "rt \<in> set forest" "node \<in> set (allNodes rt)"
    by (auto simp: forestNodes_def)
  then obtain r0 where r0: "r0 \<in> set roots" "rt = sortFolderContents H r0"
    unfolding forest by auto
  from sortFolderContents_nodes[of node H r0] rt r0 obtain t0 where t0: "t0 \<in> set (allNodes r0)"
    "name node = name t0" "path node = path t0" "isExpanded node = isExpanded t0"
    "videos node = sortFilesByNumber H videoName (videos t0)"
    "allFiles node = map_option (sortFilesByNumber H itemName) (allFiles t0)" by blast
  from r0(1) obtain i where i: "i < length roots" "roots ! i = r0" by (auto simp: in_set_conv_nth)
  from those_map_Some[OF r] i
  have "readNode (length (heap ?s)) (heap ?s) (rootFolders ?s ! i) = Some r0" by auto
  from readNode_nodes[OF this t0(1)] obtain b where "b < length (heap ?s)" "nodeOf (heap ?s ! b) t0"
    by blast
  then show ?thesis using t0 by (auto simp: nodeOf_def)
qed

lemma emptyFolder_simps [simp]: "emptyFolder (newFolder n p)" "emptyFolder rootObject"
  "objPath (newFolder n p) = p" "objName (newFolder n p) = n" "\<not> objIsExpanded (newFolder n p)"
  "objPath rootObject = []" "objName rootObject = rootName" "objIsExpanded rootObject"
  by (simp_all add: emptyFolder_def newFolder_def rootObject_def)

lemma walkStep_cases:
  assumes ok: "walkOk (pp, cp, s)"
  obtains (found) b where "folderMap s (nextPath pp seg) = Some b"
      "walkStep (pp, cp, s) seg = (nextPath pp seg, Some b, s)"
  | (root) "folderMap s (nextPath pp seg) = None" "cp = None" "pp = []"
      "walkStep (pp, cp, s) seg
         = (nextPath pp seg, Some (length (heap s)), newRoot (newFolder seg (nextPath pp seg)) s)"
  | (child) parent where "folderMap s (nextPath pp seg) = None" "cp = Some parent"
      "folderMap s pp = Some parent" "parent < length (heap s)"
      "walkStep (pp, cp, s) seg
         = (nextPath pp seg, Some (length (heap s)), newChild parent (newFolder seg (nextPath pp seg)) s)"
proof -
  let ?cur = "nextPath pp seg"
  have inv: "heapInv s" using ok by (simp add: walkOk_def)
  have m: "mapInv s" using inv by (simp add: heapInv_def)
  show ?thesis
  proof (cases "folderMap s ?cur")
    case (Some b)
    then have "walkStep (pp, cp, s) seg = (?cur, Some b, s)"
      by (simp add: walkStep_def Let_def)
    with Some show ?thesis by (rule found)
  next
    case None
    show ?thesis
    proof (cases cp)
      case cpNone: None
      then have pp: "pp = []" using ok by (simp add: walkOk_def)
      have "walkStep (pp, cp, s) seg = (?cur, Some (length (heap s)), newRoot (newFolder seg ?cur) s)"
        using None cpNone pp by (simp add: walkStep_def Let_def newRoot_def newFolder_def)
      with None cpNone pp show ?thesis by (rule root)
    next
      case (Some parent)
      then have fp: "folderMap s pp = Some parent" using ok by (simp add: walkOk_def)
      then have parent: "parent < length (heap s)" using m unfolding mapInv_def by blast
      have "walkStep (pp, cp, s) seg = (?cur, Some (length (heap s)), newChild parent (newFolder seg ?cur) s)"
        using None Some by (simp add: walkStep_def Let_def newChild_def newFolder_def)
      with None Some fp parent show ?thesis by (rule child)
    qed
  qed
qed

lemma heapInv_newRoot:
  "heapInv s \<Longrightarrow> folderMap s (objPath obj) = None \<Longrightarrow> emptyFolder obj \<Longrightarrow> heapInv (newRoot obj s)"
  unfolding newRoot_def by (rule heapInv_new_root) (simp_all add: emptyFolder_def)

lemma heapInv_newChild:
  "heapInv s \<Longrightarrow> folderMap s (objPath obj) = None \<Longrightarrow> emptyFolder obj
   \<Longrightarrow> parent < length (heap s) \<Longrightarrow> heapInv (newChild parent obj s)"
  unfolding newChild_def by (rule heapInv_new_child) (simp_all add: emptyFolder_def)

lemma newRoot_simps [simp]:
  "length (heap (newRoot obj s)) = Suc (length (heap s))"
  "folderMap (newRoot obj s) = (folderMap s)(objPath obj \<mapsto> length (heap s))"
  "rootFolders (newRoot obj s) = rootFolders s @ [length (heap s)]"
  by (simp_all add: newRoot_def)

lemma newChild_simps [simp]:
  "length (heap (newChild parent obj s)) = Suc (length (heap s))"
  "folderMap (newChild parent obj s) = (folderMap s)(objPath obj \<mapsto> length (heap s))"
  "rootFolders (newChild parent obj s) = rootFolders s"
  by (simp_all add: newChild_def)

lemma nth_newRoot:
  "b < Suc (length (heap s)) \<Longrightarrow>
   heap (newRoot obj s) ! b = (if b = length (heap s) then obj else heap s ! b)"
  by (simp add: newRoot_def nth_append)

lemma nth_newChild:
  assumes "parent < length (heap s)" "b < Suc (length (heap s))"
  shows "heap (newChild parent obj s) ! b =
     (if b = length (heap s) then obj
      else if b = parent
      then (heap s ! parent)\<lparr>objChildren := objChildren (heap s ! parent) @ [length (heap s)]\<rparr>
      else heap s ! b)"
proof -
  let ?s1 = "s\<lparr> heap := heap s @ [obj],
           folderMap := (folderMap s)(objPath obj \<mapsto> length (heap s)) \<rparr>"
  have p1: "parent < length (heap ?s1)" and b1: "b < length (heap ?s1)" using assms by simp_all
  show ?thesis
    unfolding newChild_def nth_pushChild[OF p1 b1]
    using assms by (auto simp: nth_append)
qed

text \<open>
  A property of the state that allocating an empty folder keeps is kept by the walk along
  the segments of a path.
\<close>

lemma walk_preserves:
  assumes ok: "walkOk (pp, cp, s)" and I: "I s"
    and r: "\<And>s obj. heapInv s \<Longrightarrow> I s \<Longrightarrow> folderMap s (objPath obj) = None \<Longrightarrow> emptyFolder obj
              \<Longrightarrow> I (newRoot obj s)"
    and c: "\<And>s parent obj. heapInv s \<Longrightarrow> I s \<Longrightarrow> folderMap s (objPath obj) = None
              \<Longrightarrow> emptyFolder obj \<Longrightarrow> parent < length (heap s) \<Longrightarrow> I (newChild parent obj s)"
  shows "I (snd (snd (foldl walkStep (pp, cp, s) segs)))"
  using ok I
proof (induction segs arbitrary: pp cp s)
  case Nil
  then show ?case by simp
next
  case (Cons seg segs)
  let ?obj = "newFolder seg (nextPath pp seg)"
  have inv: "heapInv s" using Cons.prems(1) by (simp add: walkOk_def)
  from Cons.prems(1) show ?case
  proof (cases rule: walkStep_cases[where seg = seg])
    case (found b)
    then have "walkOk (nextPath pp seg, Some b, s)" using inv by (simp add: walkOk_def)
    from Cons.IH[OF this Cons.prems(2)] show ?thesis using found by simp
  next
    case root
    have fr: "folderMap s (objPath ?obj) = None" using root(1) by simp
    have "heapInv (newRoot ?obj s)" by (rule heapInv_newRoot[OF inv fr]) simp
    then have "walkOk (nextPath pp seg, Some (length (heap s)), newRoot ?obj s)"
      by (simp add: walkOk_def)
    from Cons.IH[OF this r[OF inv Cons.prems(2) fr]] show ?thesis using root by simp
  next
    case (child parent)
    have fr: "folderMap s (objPath ?obj) = None" using child(1) by simp
    have "heapInv (newChild parent ?obj s)"
      by (rule heapInv_newChild[OF inv fr _ child(4)]) simp
    then have "walkOk (nextPath pp seg, Some (length (heap s)), newChild parent ?obj s)"
      by (simp add: walkOk_def)
    from Cons.IH[OF this c[OF inv Cons.prems(2) fr _ child(4)]] show ?thesis
      using child by simp
  qed
qed

lemma getRootFolder_cases:
  obtains (found) a where "folderMap s [] = Some a" "getRootFolder s = (a, s)"
  | (new) "folderMap s [] = None" "getRootFolder s = (length (heap s), newRoot rootObject s)"
proof (cases "folderMap s []")
  case None
  then have "getRootFolder s = (length (heap s), newRoot rootObject s)"
    by (simp add: getRootFolder_def Let_def newRoot_def rootObject_def)
  with None show ?thesis by (rule new)
next
  case (Some a)
  then have "getRootFolder s = (a, s)" by (simp add: getRootFolder_def)
  with Some show ?thesis by (rule found)
qed

text \<open>
  The effect of \<open>placeFile\<close> on a property of the state that allocating an empty folder
  keeps: the property holds of the state in which the file is added.
\<close>

lemma placeFile_cases:
  assumes inv: "heapInv s" and I: "I s"
    and r: "\<And>s obj. heapInv s \<Longrightarrow> I s \<Longrightarrow> folderMap s (objPath obj) = None \<Longrightarrow> emptyFolder obj
              \<Longrightarrow> I (newRoot obj s)"
    and c: "\<And>s parent obj. heapInv s \<Longrightarrow> I s \<Longrightarrow> folderMap s (objPath obj) = None
              \<Longrightarrow> emptyFolder obj \<Longrightarrow> parent < length (heap s) \<Longrightarrow> I (newChild parent obj s)"
  shows "\<exists>a s1. placeFile s f = addFile a f s1 \<and> heapInv s1 \<and> I s1
           \<and> folderMap s1 (folderPathOf f) = Some a"
proof (cases "pathParts f = []")
  case True
  then have fp: "folderPathOf f = []" by (simp add: folderPathOf_def)
  show ?thesis
  proof (cases rule: getRootFolder_cases[of s])
    case (found a)
    then have "placeFile s f = addFile a f s" using True by (simp add: placeFile_def pathParts_def)
    then show ?thesis using inv I found fp by auto
  next
    case new
    have fr: "folderMap s (objPath rootObject) = None" using new(1) by simp
    have "placeFile s f = addFile (length (heap s)) f (newRoot rootObject s)"
      using True new by (simp add: placeFile_def pathParts_def)
    moreover have "heapInv (newRoot rootObject s)" by (rule heapInv_newRoot[OF inv fr]) simp
    moreover have "I (newRoot rootObject s)" by (rule r[OF inv I fr]) simp
    moreover have "folderMap (newRoot rootObject s) (folderPathOf f) = Some (length (heap s))"
      using fp by simp
    ultimately show ?thesis by blast
  qed
next
  case False
  have ok: "walkOk ([], None, s)" using inv by (simp add: walkOk_def)
  obtain a s1 where w: "foldl walkStep ([], None, s) (pathParts f) = (folderPathOf f, Some a, s1)"
    and ok1: "walkOk (folderPathOf f, Some a, s1)"
    using walk_ok[OF ok False] unfolding folderPathOf_def by blast
  have "I (snd (snd (foldl walkStep ([], None, s) (pathParts f))))"
    by (rule walk_preserves[OF ok I r c])
  then have "I s1" using w by simp
  moreover have "placeFile s f = addFile a f s1"
    using False w by (simp add: placeFile_def pathParts_def[symmetric])
  ultimately show ?thesis using ok1 by (auto simp: walkOk_def)
qed

lemma itemsInv_fresh:
  assumes "itemsInv items s" "folderMap s p = None"
  shows "filter (\<lambda>g. folderPathOf g = p) items = []"
proof -
  have "folderPathOf g \<noteq> p" if "g \<in> set items" for g
    using assms that unfolding itemsInv_def by metis
  then show ?thesis by (simp add: filter_empty_conv)
qed

lemma itemsInv_newRoot:
  assumes inv: "heapInv s" and I: "itemsInv items s" and fresh: "folderMap s (objPath obj) = None"
    and e: "emptyFolder obj"
  shows "itemsInv items (newRoot obj s)"
  unfolding itemsInv_def
proof (intro conjI allI impI ballI)
  fix a assume "a < length (heap (newRoot obj s))"
  then have a: "a < Suc (length (heap s))" by simp
  have nb: "heap (newRoot obj s) ! a = (if a = length (heap s) then obj else heap s ! a)"
    by (rule nth_newRoot[OF a])
  show "objAllFiles (heap (newRoot obj s) ! a)
      = filter (\<lambda>g. folderPathOf g = objPath (heap (newRoot obj s) ! a)) items"
  proof (cases "a = length (heap s)")
    case True
    then show ?thesis
      using itemsInv_fresh[OF I fresh] e unfolding nb by (simp add: emptyFolder_def)
  next
    case False
    then have "a < length (heap s)" using a by simp
    then show ?thesis using I False unfolding itemsInv_def nb by simp
  qed
next
  fix g assume "g \<in> set items"
  then have "folderMap s (folderPathOf g) \<noteq> None" using I unfolding itemsInv_def by blast
  then show "folderMap (newRoot obj s) (folderPathOf g) \<noteq> None" by simp
qed

lemma itemsInv_newChild:
  assumes inv: "heapInv s" and I: "itemsInv items s" and fresh: "folderMap s (objPath obj) = None"
    and e: "emptyFolder obj" and parent: "parent < length (heap s)"
  shows "itemsInv items (newChild parent obj s)"
  unfolding itemsInv_def
proof (intro conjI allI impI ballI)
  fix a assume "a < length (heap (newChild parent obj s))"
  then have a: "a < Suc (length (heap s))" by simp
  note nb = nth_newChild[OF parent a, of obj]
  show "objAllFiles (heap (newChild parent obj s) ! a)
      = filter (\<lambda>g. folderPathOf g = objPath (heap (newChild parent obj s) ! a)) items"
  proof (cases "a = length (heap s)")
    case True
    then show ?thesis
      using itemsInv_fresh[OF I fresh] e unfolding nb by (simp add: emptyFolder_def)
  next
    case False
    then have al: "a < length (heap s)" using a by simp
    then have old: "objAllFiles (heap s ! a) = filter (\<lambda>g. folderPathOf g = objPath (heap s ! a)) items"
      using I unfolding itemsInv_def by blast
    show ?thesis using old False unfolding nb by (cases "a = parent") simp_all
  qed
next
  fix g assume "g \<in> set items"
  then have "folderMap s (folderPathOf g) \<noteq> None" using I unfolding itemsInv_def by blast
  then show "folderMap (newChild parent obj s) (folderPathOf g) \<noteq> None" by simp
qed

lemma itemsInv_addFile:
  assumes inv: "heapInv s" and I: "itemsInv items s" and fm: "folderMap s (folderPathOf f) = Some a"
  shows "itemsInv (items @ [f]) (addFile a f s)"
proof -
  have m: "mapInv s" using inv by (simp add: heapInv_def)
  have a: "a < length (heap s)" and pa: "objPath (heap s ! a) = folderPathOf f"
    using m fm unfolding mapInv_def by blast+
  show ?thesis
    unfolding itemsInv_def
  proof (intro conjI allI impI ballI)
    fix b assume "b < length (heap (addFile a f s))"
    then have b: "b < length (heap s)" by simp
    have old: "objAllFiles (heap s ! b) = filter (\<lambda>g. folderPathOf g = objPath (heap s ! b)) items"
      using I b unfolding itemsInv_def by blast
    have nb: "heap (addFile a f s) ! b = (if b = a then pushFile f (heap s ! a) else heap s ! b)"
      by (rule nth_addFile[OF b])
    show "objAllFiles (heap (addFile a f s) ! b)
        = filter (\<lambda>g. folderPathOf g = objPath (heap (addFile a f s) ! b)) (items @ [f])"
    proof (cases "b = a")
      case True
      then show ?thesis using old pa unfolding nb by simp
    next
      case False
      have "objPath (heap s ! b) \<noteq> folderPathOf f"
      proof
        assume "objPath (heap s ! b) = folderPathOf f"
        then have "folderMap s (folderPathOf f) = Some b" using m b unfolding mapInv_def by metis
        then show False using fm False by simp
      qed
      then show ?thesis using old False unfolding nb by auto
    qed
  next
    fix g assume "g \<in> set (items @ [f])"
    then consider "g \<in> set items" | "g = f" by auto
    then show "folderMap (addFile a f s) (folderPathOf g) \<noteq> None"
    proof cases
      case 1 then show ?thesis using I unfolding itemsInv_def by simp
    next
      case 2 then show ?thesis using fm by simp
    qed
  qed
qed

lemma placeFile_itemsInv:
  assumes inv: "heapInv s" and I: "itemsInv items s"
  shows "itemsInv (items @ [f]) (placeFile s f)"
proof -
  obtain a s1 where p: "placeFile s f = addFile a f s1" "heapInv s1" "itemsInv items s1"
    "folderMap s1 (folderPathOf f) = Some a"
    using placeFile_cases[OF inv I itemsInv_newRoot itemsInv_newChild, of f] by blast
  show ?thesis unfolding p(1) by (rule itemsInv_addFile[OF p(2,3,4)])
qed

lemma foldl_placeFile_itemsInv:
  "heapInv s \<Longrightarrow> itemsInv done s \<Longrightarrow> itemsInv (done @ items) (foldl placeFile s items)"
proof (induction items arbitrary: s "done")
  case Nil then show ?case by simp
next
  case (Cons f items)
  have "itemsInv ((done @ [f]) @ items) (foldl placeFile (placeFile s f) items)"
    by (rule Cons.IH[OF placeFile_inv[OF Cons.prems(1)] placeFile_itemsInv[OF Cons.prems]])
  then show ?case by simp
qed

lemma buildHeap_itemsInv: "itemsInv (map (toFileItem H) files) (buildHeap H files)"
proof -
  have "itemsInv [] emptyBuild" by (simp add: itemsInv_def emptyBuild_def)
  from foldl_placeFile_itemsInv[OF heapInv_empty this, of "map (toFileItem H) files"]
  show ?thesis by (simp add: buildHeap_def)
qed

lemmas build_eval = buildCompleteFolderTree_def buildHeap_def placeFile_def walkStep_def
  getRootFolder_def addFile_def pushChild_def pushFile_def toFileItem_def toVideoFile_def
  isVideoFile_def isVideoByExtension_def SUPPORTED_VIDEO_FORMATS_def videoExtensions_def
  lastIndexOf_def substring_def nextPath_def emptyBuild_def slash_def
  sampleFiles_def sampleFile_def plainHost_def asciiLower_def js_def Let_def

lemma sample_items:
  "map (toFileItem plainHost) sampleFiles =
     [\<lparr>itemFile = Some (sampleFile (js ''b1.mp4'') (js ''A/b1.mp4'')), itemName = js ''b1.mp4'',
        itemPath = js ''A/b1.mp4'', itemSize = 1, isVideo = True\<rparr>,
      \<lparr>itemFile = Some (sampleFile (js ''a1.txt'') (js ''A/a1.txt'')), itemName = js ''a1.txt'',
        itemPath = js ''A/a1.txt'', itemSize = 1, isVideo = False\<rparr>,
      \<lparr>itemFile = Some (sampleFile (js ''B.mp4'') []), itemName = js ''B.mp4'',
        itemPath = js ''B.mp4'', itemSize = 1, isVideo = True\<rparr>]"
  by (simp add: build_eval)

lemma sample_keys:
  "extractNumberFromFileName (js ''A'') = Infinity"
  "extractNumberFromFileName rootName = Infinity"
  "extractNumberFromFileName (js ''b1.mp4'') = Finite 1"
  "extractNumberFromFileName (js ''a1.txt'') = Finite 1"
  "extractNumberFromFileName (js ''B.mp4'') = Finite 4"
  by (simp_all add: extractNumberFromFileName_def patterns_def js_def matchLabelledAt_def
  matchLeading_def matchAny_def isDigit_def parseInt10_def decimalValue_def digitValue_def
  toNumber_def chDi_def rootName_def)

lemma sample_compare: "codeUnitCompare (js ''A'') rootName = - 1"
  by (simp add: codeUnitCompare_def js_def rootName_def)

lemma sample_forest:
  "buildCompleteFolderTree plainHost sampleFiles =
     Some [FolderNode (js ''A'') (js ''A'') []
             [toVideoFile (sampleItem (js ''b1.mp4'') (js ''A/b1.mp4'') True)]
             (Some [sampleItem (js ''b1.mp4'') (js ''A/b1.mp4'') True,
                    sampleItem (js ''a1.txt'') (js ''A/a1.txt'') False])
             (Some False),
           FolderNode rootName [] []
             [toVideoFile (sampleItem (js ''B.mp4'') (js ''B.mp4'') True)]
             (Some [sampleItem (js ''B.mp4'') (js ''B.mp4'') True])
             (Some True)]"
  by (simp add: build_eval sampleItem_def sortFilesByNumber_def arraySort_def compareNames_def
      sample_keys[unfolded js_def, simplified] sample_compare[unfolded js_def, simplified])

lemma build_node_files:
  assumes b: "buildCompleteFolderTree H files = Some forest" and n: "node \<in> set (forestNodes forest)"
  shows "\<exists>fs0. allFiles node = Some (sortFilesByNumber H itemName fs0)
           \<and> videos node = sortFilesByNumber H videoName (map toVideoFile (filter isVideo fs0))
           \<and> set fs0 \<subseteq> set (map (toFileItem H) files)
           \<and> (\<forall>e\<in>set fs0. folderPathOf e = path node)"
proof -
  let ?s = "buildHeap H files"
  obtain a where a: "a < length (heap ?s)" "path node = objPath (heap ?s ! a)"
    "videos node = sortFilesByNumber H videoName (objVideos (heap ?s ! a))"
    "allFiles node = Some (sortFilesByNumber H itemName (objAllFiles (heap ?s ! a)))"
    using build_nodes[OF b n] by blast
  have f: "fileInv ?s" using buildHeap_inv[of H files] by (simp add: heapInv_def)
  have v: "objVideos (heap ?s ! a) = map toVideoFile (filter isVideo (objAllFiles (heap ?s ! a)))"
    and p: "\<forall>e\<in>set (objAllFiles (heap ?s ! a)). folderPathOf e = objPath (heap ?s ! a)"
    using f a(1) unfolding fileInv_def by blast+
  have "objAllFiles (heap ?s ! a)
      = filter (\<lambda>g. folderPathOf g = objPath (heap ?s ! a)) (map (toFileItem H) files)"
    using buildHeap_itemsInv[of H files] a(1) unfolding itemsInv_def by blast
  then have "set (objAllFiles (heap ?s ! a)) \<subseteq> set (map (toFileItem H) files)"
    by (metis filter_is_subset)
  then show ?thesis using a v p by auto
qed

text \<open>
  C7. For every batch of files whose paths are relative (none begins with a slash), the
  function returns a forest, and every entry of \<open>allFiles\<close> and of \<open>videos\<close> in it sits
  in the folder whose \<open>path\<close> is the entry's path without its final segment: the
  segments before the last one, joined by slashes, and the empty string when the path
  has no slash.
\<close>

theorem buildCompleteFolderTree_file_location:
  assumes "\<forall>f\<in>set files. relativePath (itemPath (toFileItem H f))"
  shows "\<exists>forest. buildCompleteFolderTree H files = Some forest
           \<and> (\<forall>node\<in>set (forestNodes forest).
                 (\<forall>fs. allFiles node = Some fs \<longrightarrow>
                    (\<forall>e\<in>set fs. path node = parentPathOf (itemPath e)))
                 \<and> (\<forall>v\<in>set (videos node). path node = parentPathOf (videoPath v)))"
proof -
  obtain forest where b: "buildCompleteFolderTree H files = Some forest"
    using build_total by blast
  have "(\<forall>fs. allFiles node = Some fs \<longrightarrow> (\<forall>e\<in>set fs. path node = parentPathOf (itemPath e)))
      \<and> (\<forall>v\<in>set (videos node). path node = parentPathOf (videoPath v))"
    if n: "node \<in> set (forestNodes forest)" for node
  proof -
    obtain fs0 where fs0: "allFiles node = Some (sortFilesByNumber H itemName fs0)"
      "videos node = sortFilesByNumber H videoName (map toVideoFile (filter isVideo fs0))"
      "set fs0 \<subseteq> set (map (toFileItem H) files)"
      "\<forall>e\<in>set fs0. folderPathOf e = path node"
      using build_node_files[OF b n] by blast
    have loc: "path node = parentPathOf (itemPath e)" if "e \<in> set fs0" for e
    proof -
      have "relativePath (itemPath e)" using fs0(3) that assms by auto
      then have "folderPathOf e = parentPathOf (itemPath e)" by (rule folderPathOf_relative)
      then show ?thesis using fs0(4) that by simp
    qed
    have "path node = parentPathOf (videoPath v)" if "v \<in> set (videos node)" for v
    proof -
      from that obtain e where "e \<in> set fs0" "v = toVideoFile e" unfolding fs0(2) by auto
      then show ?thesis using loc by (simp add: toVideoFile_def)
    qed
    then show ?thesis using loc fs0(1) by simp
  qed
  with b show ?thesis by blast
qed

text \<open>
  C10. In every folder of the forest that the function returns, \<open>videos\<close> has exactly
  the entries of \<open>allFiles\<close> that are tagged \<open>isVideo\<close>, each with the same file, name,
  path and size, as many times as they occur; for a consistent \<open>localeCompare\<close> they
  are also in the same order.
\<close>

theorem buildCompleteFolderTree_videos_allFiles:
  "\<exists>forest. buildCompleteFolderTree H files = Some forest
     \<and> (\<forall>node\<in>set (forestNodes forest).
           \<exists>fs. allFiles node = Some fs
              \<and> mset (videos node) = mset (map toVideoFile (filter isVideo fs))
              \<and> length (videos node) = length (filter isVideo fs)
              \<and> (consistentComparator (localeCompare H) \<longrightarrow>
                    videos node = map toVideoFile (filter isVideo fs)))"
proof -
  obtain forest where b: "buildCompleteFolderTree H files = Some forest"
    using build_total by blast
  have "\<exists>fs. allFiles node = Some fs
              \<and> mset (videos node) = mset (map toVideoFile (filter isVideo fs))
              \<and> length (videos node) = length (filter isVideo fs)
              \<and> (consistentComparator (localeCompare H) \<longrightarrow>
                    videos node = map toVideoFile (filter isVideo fs))"
    if n: "node \<in> set (forestNodes forest)" for node
  proof -
    obtain fs0 where fs0: "allFiles node = Some (sortFilesByNumber H itemName fs0)"
      "videos node = sortFilesByNumber H videoName (map toVideoFile (filter isVideo fs0))"
      using build_node_files[OF b n] by blast
    let ?fs = "sortFilesByNumber H itemName fs0"
    have m: "mset (videos node) = mset (map toVideoFile (filter isVideo ?fs))"
      unfolding fs0(2) by (simp add: sortFilesByNumber_def)
    then have l: "length (videos node) = length (filter isVideo ?fs)"
      by (metis length_map size_mset)
    have c: "videos node = map toVideoFile (filter isVideo ?fs)"
      if cc: "consistentComparator (localeCompare H)"
    proof -
      have vn: "(\<lambda>a b. compareNames H (videoName (toVideoFile a)) (videoName (toVideoFile b)))
          = (\<lambda>a b. compareNames H (itemName a) (itemName b))"
        by (simp add: toVideoFile_def)
      have "videos node = map toVideoFile
          (arraySort (\<lambda>a b. compareNames H (itemName a) (itemName b)) (filter isVideo fs0))"
        unfolding fs0(2) sortFilesByNumber_def arraySort_map vn ..
      also have "\<dots> = map toVideoFile (filter isVideo ?fs)"
        unfolding sortFilesByNumber_def
        using filter_arraySort[OF consistent_comp[OF consistent_compareNames[OF cc]], of isVideo itemName fs0]
        by simp
      finally show ?thesis .
    qed
    show ?thesis using fs0(1) m l c by blast
  qed
  with b show ?thesis by blast
qed

lemma sample_relative:
  "list_all (\<lambda>f. relativePath (itemPath (toFileItem plainHost f))) sampleFiles"
  by (simp add: sampleFiles_def sampleFile_def toFileItem_def relativePath_def js_def slash_def)

theorem buildCompleteFolderTree_file_location_witness:
  "list_all (\<lambda>f. relativePath (itemPath (toFileItem plainHost f))) sampleFiles
   \<and> buildCompleteFolderTree plainHost sampleFiles =
       Some [FolderNode (js ''A'') (js ''A'') []
               [toVideoFile (sampleItem (js ''b1.mp4'') (js ''A/b1.mp4'') True)]
               (Some [sampleItem (js ''b1.mp4'') (js ''A/b1.mp4'') True,
                      sampleItem (js ''a1.txt'') (js ''A/a1.txt'') False])
               (Some False),
             FolderNode rootName [] []
               [toVideoFile (sampleItem (js ''B.mp4'') (js ''B.mp4'') True)]
               (Some [sampleItem (js ''B.mp4'') (js ''B.mp4'') True])
               (Some True)]
   \<and> parentPathOf (js ''A/b1.mp4'') = js ''A''
   \<and> parentPathOf (js ''B.mp4'') = []
   \<and> (\<exists>forest. buildCompleteFolderTree plainHost sampleFiles = Some forest
           \<and> (\<forall>node\<in>set (forestNodes forest).
                 (\<forall>fs. allFiles node = Some fs \<longrightarrow>
                    (\<forall>e\<in>set fs. path node = parentPathOf (itemPath e)))
                 \<and> (\<forall>v\<in>set (videos node). path node = parentPathOf (videoPath v))))"
proof -
  have h: "\<forall>f\<in>set sampleFiles. relativePath (itemPath (toFileItem plainHost f))"
    using sample_relative by (simp only: list_all_iff)
  have p1: "parentPathOf (js ''A/b1.mp4'') = js ''A''"
    by (simp add: parentPathOf_def js_def slash_def)
  have p2: "parentPathOf (js ''B.mp4'') = []"
    by (simp add: parentPathOf_def js_def slash_def)
  show ?thesis
    using sample_relative sample_forest p1 p2
      buildCompleteFolderTree_file_location[OF h]
    by (simp only: simp_thms)
qed

theorem buildCompleteFolderTree_videos_allFiles_witness:
  "consistentComparator (localeCompare plainHost)
   \<and> (\<exists>forest. buildCompleteFolderTree plainHost sampleFiles = Some forest
        \<and> list_all (\<lambda>node. \<exists>fs. allFiles node = Some fs
                \<and> videos node = map toVideoFile (filter isVideo fs)
                \<and> length (videos node) = length (filter isVideo fs))
            (forestNodes forest))"
proof -
  obtain forest where f: "buildCompleteFolderTree plainHost sampleFiles = Some forest"
    and n: "\<forall>node\<in>set (forestNodes forest).
           \<exists>fs. allFiles node = Some fs
              \<and> mset (videos node) = mset (map toVideoFile (filter isVideo fs))
              \<and> length (videos node) = length (filter isVideo fs)
              \<and> (consistentComparator (localeCompare plainHost) \<longrightarrow>
                    videos node = map toVideoFile (filter isVideo fs))"
    using buildCompleteFolderTree_videos_allFiles[of plainHost sampleFiles] by blast
  have "list_all (\<lambda>node. \<exists>fs. allFiles node = Some fs
                \<and> videos node = map toVideoFile (filter isVideo fs)
                \<and> length (videos node) = length (filter isVideo fs))
            (forestNodes forest)"
    unfolding list_all_iff using n consistent_plainHost by blast
  with f consistent_plainHost show ?thesis by blast
qed

end
